theory Spec2Isabelle
  imports Main "HOL-Library.Multiset"
begin

section \<open>Data model of pqdict.py\<close>

text \<open>
  Python exceptions raised by the module. \<open>KeyError\<close> is what the source raises both for a
  missing dictionary key and for \<open>popitem\<close>/\<open>peek\<close> on an empty queue; \<open>IndexError\<close> is what
  a list access out of range raises.
\<close>

datatype error = KeyError | IndexError | TypeError | ValueError

text \<open>
  The two concrete entry classes. The class of an entry decides how \<open><\<close> compares it with
  another entry (\<open>__lt__\<close> of the left operand).
\<close>

datatype entry_class = MinPQDEntry | MaxPQDEntry

record ('k, 'p) PQDictEntry =
  dkey :: 'k
  pkey :: 'p
  cls :: entry_class

definition entry_lt :: "('k, 'p::linorder) PQDictEntry \<Rightarrow> ('k, 'p) PQDictEntry \<Rightarrow> bool" where
  "entry_lt self other =
     (case cls self of
        MinPQDEntry \<Rightarrow> pkey self < pkey other
      | MaxPQDEntry \<Rightarrow> pkey self > pkey other)"

definition new_entry :: "entry_class \<Rightarrow> 'k \<Rightarrow> 'p \<Rightarrow> ('k, 'p) PQDictEntry" where
  "new_entry c k p = \<lparr>dkey = k, pkey = p, cls = c\<rparr>"

text \<open>
  The slots of a \<open>PQDict\<close>: the heap list, the dictionary from keys to heap positions and
  the entry class used for new entries.
\<close>

record ('k, 'p) PQDict =
  heap :: "('k, 'p) PQDictEntry list"
  nodefinder :: "'k \<rightharpoonup> nat"
  create_entry :: entry_class

text \<open>
  A call returns the raised exception or the returned value, together with the instance as
  the call left it (the methods mutate in place, so an exception keeps what was written
  before it).
\<close>

type_synonym ('a, 'k, 'p) outcome = "(error + 'a) \<times> ('k, 'p) PQDict"

section \<open>The repair primitives\<close>

text \<open>The \<open>while pos > top\<close> loop of \<open>_swim\<close>, on the local variables heap, finder, pos.\<close>

function swim_loop ::
  "('k, 'p::linorder) PQDictEntry \<Rightarrow> nat \<Rightarrow>
   ('k, 'p) PQDictEntry list \<times> ('k \<rightharpoonup> nat) \<times> nat \<Rightarrow>
   ('k, 'p) PQDictEntry list \<times> ('k \<rightharpoonup> nat) \<times> nat" where
  "swim_loop entry top_pos (h, finder, pos) =
     (if pos > top_pos then
        (let parent_pos = (pos - 1) div 2;
             parent_entry = h ! parent_pos
         in if entry_lt entry parent_entry
            then swim_loop entry top_pos
                   (h[pos := parent_entry], finder(dkey parent_entry \<mapsto> pos), parent_pos)
            else (h, finder, pos))
      else (h, finder, pos))"
  by pat_completeness auto
termination
  by (relation "measure (\<lambda>(entry, top_pos, h, finder, pos). pos)") auto

text \<open>
  \<open>_swim(pos, top)\<close>. The first statement \<open>entry = heap[pos]\<close> raises IndexError when
  \<open>pos\<close> is out of range; positions are never negative here.
\<close>

definition swim :: "('k, 'p::linorder) PQDict \<Rightarrow> nat \<Rightarrow> nat \<Rightarrow> (unit, 'k, 'p) outcome" where
  "swim self pos top_pos =
     (if length (heap self) \<le> pos then (Inl IndexError, self)
      else
        (let entry = heap self ! pos;
             (h, finder, pos') = swim_loop entry top_pos (heap self, nodefinder self, pos)
         in (Inr (), self\<lparr>heap := h[pos' := entry],
                          nodefinder := finder(dkey entry \<mapsto> pos')\<rparr>)))"

text \<open>The \<open>while child_pos < len(heap)\<close> loop of \<open>_sink\<close>.\<close>

function sink_loop ::
  "('k, 'p::linorder) PQDictEntry list \<times> ('k \<rightharpoonup> nat) \<times> nat \<Rightarrow>
   ('k, 'p) PQDictEntry list \<times> ('k \<rightharpoonup> nat) \<times> nat" where
  "sink_loop (h, finder, pos) =
     (if 2 * pos + 1 < length h then
        (let child_pos = 2 * pos + 1;
             right_pos = child_pos + 1;
             child_pos = (if right_pos < length h \<and> \<not> entry_lt (h ! child_pos) (h ! right_pos)
                          then right_pos else child_pos);
             child_entry = h ! child_pos
         in sink_loop (h[pos := child_entry], finder(dkey child_entry \<mapsto> pos), child_pos))
      else (h, finder, pos))"
  by pat_completeness auto
termination
  by (relation "measure (\<lambda>(h, finder, pos). length h - pos)") (auto simp: Let_def)

text \<open>\<open>_sink(top)\<close>: the hole walks down to a leaf, then the entry swims back, no higher than \<open>top\<close>.\<close>

definition sink :: "('k, 'p::linorder) PQDict \<Rightarrow> nat \<Rightarrow> (unit, 'k, 'p) outcome" where
  "sink self top_pos =
     (if length (heap self) \<le> top_pos then (Inl IndexError, self)
      else
        (let entry = heap self ! top_pos;
             (h, finder, pos) = sink_loop (heap self, nodefinder self, top_pos)
         in swim (self\<lparr>heap := h[pos := entry],
                        nodefinder := finder(dkey entry \<mapsto> pos)\<rparr>) pos top_pos))"

text \<open>
  The block that \<open>__setitem__\<close>, \<open>__delitem__\<close> and \<open>pop\<close> each repeat after changing the
  entry at \<open>pos\<close>. \<open>(pos - 1) >> 1\<close> is computed on Python's integers, so it is \<open>-1\<close> at
  \<open>pos = 0\<close>; the test is \<open>parent_pos > 0\<close>.
\<close>

definition reposition :: "('k, 'p::linorder) PQDict \<Rightarrow> nat \<Rightarrow> (unit, 'k, 'p) outcome" where
  "reposition self pos =
     (let h = heap self;
          parent_pos = (int pos - 1) div 2;
          child_pos = 2 * pos + 1
      in if parent_pos > 0 \<and> entry_lt (h ! pos) (h ! nat parent_pos) then swim self pos 0
         else if child_pos < length h then
           (let right_pos = child_pos + 1;
                child_pos = (if right_pos < length h \<and> \<not> entry_lt (h ! child_pos) (h ! right_pos)
                             then right_pos else child_pos)
            in if entry_lt (h ! child_pos) (h ! pos) then sink self pos else (Inr (), self))
         else (Inr (), self))"

section \<open>The public operations\<close>

definition len :: "('k, 'p) PQDict \<Rightarrow> nat" where
  "len self = card (dom (nodefinder self))"

definition contains :: "('k, 'p) PQDict \<Rightarrow> 'k \<Rightarrow> bool" where
  "contains self k = (k \<in> dom (nodefinder self))"

definition iter_keys :: "('k, 'p) PQDict \<Rightarrow> 'k list" where
  "iter_keys self = map dkey (heap self)"

definition getitem :: "('k, 'p) PQDict \<Rightarrow> 'k \<Rightarrow> error + 'p" where
  "getitem self k =
     (case nodefinder self k of
        None \<Rightarrow> Inl KeyError
      | Some pos \<Rightarrow> if pos < length (heap self) then Inr (pkey (heap self ! pos))
                    else Inl IndexError)"

definition setitem :: "('k, 'p::linorder) PQDict \<Rightarrow> 'k \<Rightarrow> 'p \<Rightarrow> (unit, 'k, 'p) outcome" where
  "setitem self k p =
     (case nodefinder self k of
        None \<Rightarrow>
          (let n = length (heap self)
           in swim (self\<lparr>heap := heap self @ [new_entry (create_entry self) k p],
                          nodefinder := (nodefinder self)(k \<mapsto> n)\<rparr>) n 0)
      | Some pos \<Rightarrow>
          if length (heap self) \<le> pos then (Inl IndexError, self)
          else reposition (self\<lparr>heap := (heap self)[pos := (heap self ! pos)\<lparr>pkey := p\<rparr>]\<rparr>) pos)"

text \<open>
  \<open>__delitem__\<close>. \<open>finder.pop(dkey)\<close> is the first write; \<open>entry is not last\<close> compares
  object identity, and the objects of the heap list at two different positions are
  different objects, so it is a comparison of positions.
\<close>

definition delitem :: "('k, 'p::linorder) PQDict \<Rightarrow> 'k \<Rightarrow> (unit, 'k, 'p) outcome" where
  "delitem self k =
     (case nodefinder self k of
        None \<Rightarrow> (Inl KeyError, self)
      | Some pos \<Rightarrow>
          (let self1 = self\<lparr>nodefinder := (nodefinder self)(k := None)\<rparr>
           in if length (heap self) \<le> pos then (Inl IndexError, self1)
              else
                (let lst = last (heap self);
                     self2 = self1\<lparr>heap := butlast (heap self)\<rparr>
                 in if pos \<noteq> length (heap self) - 1
                    then reposition (self2\<lparr>heap := (heap self2)[pos := lst],
                                            nodefinder := (nodefinder self2)(dkey lst \<mapsto> pos)\<rparr>) pos
                    else (Inr (), self2))))"

text \<open>
  \<open>pop(dkey, default)\<close>; \<open>default = None\<close> stands for the marker object of a call that
  gives no default. The result is the priority of the removed key or the default.
\<close>

datatype ('p, 'd) popped = Priority 'p | Default 'd

definition pop :: "('k, 'p::linorder) PQDict \<Rightarrow> 'k \<Rightarrow> 'd option \<Rightarrow> (('p, 'd) popped, 'k, 'p) outcome" where
  "pop self k dflt =
     (case nodefinder self k of
        None \<Rightarrow> (case dflt of None \<Rightarrow> (Inl KeyError, self)
                                | Some d \<Rightarrow> (Inr (Default d), self))
      | Some pos \<Rightarrow>
          (let self1 = self\<lparr>nodefinder := (nodefinder self)(k := None)\<rparr>
           in if length (heap self) \<le> pos then (Inl IndexError, self1)
              else
                (let delentry = heap self ! pos;
                     lst = last (heap self);
                     self2 = self1\<lparr>heap := butlast (heap self)\<rparr>
                 in if pos \<noteq> length (heap self) - 1
                    then
                      (case reposition (self2\<lparr>heap := (heap self2)[pos := lst],
                                              nodefinder := (nodefinder self2)(dkey lst \<mapsto> pos)\<rparr>) pos of
                         (Inl e, self3) \<Rightarrow> (Inl e, self3)
                       | (Inr u, self3) \<Rightarrow> (Inr (Priority (pkey delentry)), self3))
                    else (Inr (Priority (pkey delentry)), self2))))"

text \<open>
  \<open>popitem()\<close>. \<open>self.nodefinder.pop(entry.dkey)\<close> has no default, so it raises KeyError
  when the key is not in the dictionary.
\<close>

definition popitem :: "('k, 'p::linorder) PQDict \<Rightarrow> ('k \<times> 'p, 'k, 'p) outcome" where
  "popitem self =
     (if heap self = [] then (Inl KeyError, self)
      else
        (let lst = last (heap self);
             self1 = self\<lparr>heap := butlast (heap self)\<rparr>
         in if heap self1 \<noteq> [] then
              (let entry = heap self1 ! 0
               in case sink (self1\<lparr>heap := (heap self1)[0 := lst],
                                    nodefinder := (nodefinder self1)(dkey lst \<mapsto> 0)\<rparr>) 0 of
                    (Inl e, self2) \<Rightarrow> (Inl e, self2)
                  | (Inr u, self2) \<Rightarrow>
                      (case nodefinder self2 (dkey entry) of
                         None \<Rightarrow> (Inl KeyError, self2)
                       | Some q \<Rightarrow>
                           (Inr (dkey entry, pkey entry),
                            self2\<lparr>nodefinder := (nodefinder self2)(dkey entry := None)\<rparr>)))
            else
              (case nodefinder self1 (dkey lst) of
                 None \<Rightarrow> (Inl KeyError, self1)
               | Some q \<Rightarrow>
                   (Inr (dkey lst, pkey lst),
                    self1\<lparr>nodefinder := (nodefinder self1)(dkey lst := None)\<rparr>))))"

definition additem :: "('k, 'p::linorder) PQDict \<Rightarrow> 'k \<Rightarrow> 'p \<Rightarrow> (unit, 'k, 'p) outcome" where
  "additem self k p =
     (if k \<in> dom (nodefinder self) then (Inl KeyError, self) else setitem self k p)"

definition updateitem :: "('k, 'p::linorder) PQDict \<Rightarrow> 'k \<Rightarrow> 'p \<Rightarrow> (unit, 'k, 'p) outcome" where
  "updateitem self k new_pkey =
     (if k \<notin> dom (nodefinder self) then (Inl KeyError, self) else setitem self k new_pkey)"

definition peek :: "('k, 'p) PQDict \<Rightarrow> ('k \<times> 'p, 'k, 'p) outcome" where
  "peek self =
     (if heap self = [] then (Inl KeyError, self)
      else (Inr (dkey (heap self ! 0), pkey (heap self ! 0)), self))"

section \<open>Construction and copying\<close>

text \<open>\<open>_heapify\<close>: \<open>_sink(pos)\<close> for \<open>pos\<close> from \<open>n // 2 - 1\<close> down to \<open>0\<close>.\<close>

fun sink_all :: "('k, 'p::linorder) PQDict \<Rightarrow> nat list \<Rightarrow> (unit, 'k, 'p) outcome" where
  "sink_all self [] = (Inr (), self)"
| "sink_all self (pos # rest) =
     (case sink self pos of
        (Inl e, self') \<Rightarrow> (Inl e, self')
      | (Inr u, self') \<Rightarrow> sink_all self' rest)"

definition heapify :: "('k, 'p::linorder) PQDict \<Rightarrow> (unit, 'k, 'p) outcome" where
  "heapify self = sink_all self (rev [0 ..< length (heap self) div 2])"

text \<open>
  The two \<open>for dkey, pkey in ...\<close> loops of \<open>__init__\<close>: every pair is appended to the heap
  and its position stored under its key, whether or not the key was seen before.
\<close>

fun append_pairs :: "('k, 'p) PQDict \<Rightarrow> nat \<Rightarrow> ('k \<times> 'p) list \<Rightarrow> ('k, 'p) PQDict \<times> nat" where
  "append_pairs self pos [] = (self, pos)"
| "append_pairs self pos ((k, p) # rest) =
     append_pairs (self\<lparr>heap := heap self @ [new_entry (create_entry self) k p],
                        nodefinder := (nodefinder self)(k \<mapsto> pos)\<rparr>) (pos + 1) rest"

text \<open>
  \<open>__init__(*args, **kwargs)\<close> on an instance whose entry class is \<open>c\<close>: \<open>args\<close> is the list
  of positional arguments (each a sequence of pairs, or the items of a mapping), \<open>kwargs\<close>
  the keyword arguments. Elements that are not pairs (the source's ValueError) are excluded
  by the type.
\<close>

definition init ::
  "entry_class \<Rightarrow> ('k \<times> 'p) list list \<Rightarrow> ('k \<times> 'p) list \<Rightarrow> (unit, 'k, 'p::linorder) outcome" where
  "init c args kwargs =
     (let self = \<lparr>heap = [], nodefinder = Map.empty, create_entry = c\<rparr>
      in if length args > 1 then (Inl TypeError, self)
         else
           (let (self1, pos1) = (case args of [] \<Rightarrow> (self, 0)
                                  | seq # rest \<Rightarrow> append_pairs self 0 seq);
                (self2, pos2) = append_pairs self1 pos1 kwargs
            in heapify self2))"

definition minpq :: "('k \<times> 'p) list list \<Rightarrow> ('k \<times> 'p) list \<Rightarrow> (unit, 'k, 'p::linorder) outcome" where
  "minpq args kwargs = init MinPQDEntry args kwargs"

definition maxpq :: "('k \<times> 'p) list list \<Rightarrow> ('k \<times> 'p) list \<Rightarrow> (unit, 'k, 'p::linorder) outcome" where
  "maxpq args kwargs = init MaxPQDEntry args kwargs"

text \<open>
  \<open>__copy__\<close>: \<open>self.__class__()\<close> is a fresh instance, whose \<open>create_entry\<close> is the class
  attribute \<open>MinPQDEntry\<close>; its heap gets copies of the entries (which keep their own
  class) and its nodefinder a copy of the dictionary.
\<close>

definition copy :: "('k, 'p) PQDict \<Rightarrow> ('k, 'p) PQDict" where
  "copy self = \<lparr>heap = map (\<lambda>entry. entry) (heap self),
                nodefinder = nodefinder self,
                create_entry = MinPQDEntry\<rparr>"

section \<open>Specification predicates\<close>

text \<open>
  The predicates below state the invariants of the spec on the model: the position index
  (I1, I2), heap order (I3) and the shapes the two repair loops pass through.
\<close>

text \<open>
  Every entry of the heap list is found by the dictionary at its own position (the second
  half of I2; it makes the keys of the list pairwise distinct, which is I1).
\<close>

definition heap_indexed :: "('k, 'p) PQDictEntry list \<Rightarrow> ('k \<rightharpoonup> nat) \<Rightarrow> bool" where
  "heap_indexed h finder = (\<forall>p < length h. finder (dkey (h ! p)) = Some p)"

text \<open>
  Both repair loops keep a hole at \<open>pos\<close> while the entry being moved is held in a local
  variable. Seen with the entry written into the hole, every iteration exchanges the
  entries at two positions and stores the two new positions in the dictionary.
  \<open>exchanges P\<close> relates a heap list and dictionary to what any number of such steps
  produces, all positions involved satisfying \<open>P\<close>.
\<close>

inductive exchanges ::
  "(nat \<Rightarrow> bool) \<Rightarrow> ('k, 'p) PQDictEntry list \<times> ('k \<rightharpoonup> nat) \<Rightarrow>
   ('k, 'p) PQDictEntry list \<times> ('k \<rightharpoonup> nat) \<Rightarrow> bool"
  for P :: "nat \<Rightarrow> bool" where
  exchanges_refl: "exchanges P hf hf"
| exchanges_step:
    "P i \<Longrightarrow> P j \<Longrightarrow> i < length h \<Longrightarrow> j < length h \<Longrightarrow>
     exchanges P (h[i := h ! j, j := h ! i], f(dkey (h ! j) \<mapsto> i, dkey (h ! i) \<mapsto> j)) hf' \<Longrightarrow>
     exchanges P (h, f) hf'"

text \<open>
  \<open>in_subtree top i\<close>: position \<open>i\<close> lies in the subtree rooted at \<open>top\<close>, that is,
  following parents from \<open>i\<close> reaches \<open>top\<close>.
\<close>

function in_subtree :: "nat \<Rightarrow> nat \<Rightarrow> bool" where
  "in_subtree top_pos i = (if i \<le> top_pos then i = top_pos else in_subtree top_pos ((i - 1) div 2))"
  by pat_completeness auto
termination
  by (relation "measure (\<lambda>(top_pos, i). i)") auto

text \<open>
  Heap order inside the subtree rooted at \<open>t\<close>: no entry below \<open>t\<close> ranks higher than its
  parent.
\<close>

definition subtree_order :: "nat \<Rightarrow> ('k, 'p::linorder) PQDictEntry list \<Rightarrow> bool" where
  "subtree_order t h =
     (\<forall>i < length h. in_subtree t i \<and> i \<noteq> t \<longrightarrow> \<not> entry_lt (h ! i) (h ! ((i - 1) div 2)))"

text \<open>
  All entries are of the entry class \<open>c\<close>, so that \<open><\<close> is one ordering on them.
\<close>

definition same_class :: "entry_class \<Rightarrow> ('k, 'p) PQDictEntry list \<Rightarrow> bool" where
  "same_class c h = (\<forall>x \<in> set h. cls x = c)"

text \<open>
  The order around a hole at \<open>pos\<close> in the subtree of \<open>t\<close>: every parent-child pair that
  does not involve the hole is in order, and the children of the hole do not rank higher than
  the parent of the hole.
\<close>

definition hole_order :: "nat \<Rightarrow> ('k, 'p::linorder) PQDictEntry list \<Rightarrow> nat \<Rightarrow> bool" where
  "hole_order t h pos =
     ((\<forall>i < length h. in_subtree t i \<and> i \<noteq> t \<and> i \<noteq> pos \<and> (i - 1) div 2 \<noteq> pos \<longrightarrow>
          \<not> entry_lt (h ! i) (h ! ((i - 1) div 2)))
      \<and> (pos \<noteq> t \<longrightarrow> (\<forall>i < length h. 0 < i \<and> (i - 1) div 2 = pos \<longrightarrow>
          \<not> entry_lt (h ! i) (h ! ((pos - 1) div 2)))))"

text \<open>
  No child of position \<open>pos\<close> ranks higher than the entry \<open>e\<close>.
\<close>

definition children_below :: "('k, 'p::linorder) PQDictEntry \<Rightarrow> ('k, 'p) PQDictEntry list \<Rightarrow> nat \<Rightarrow> bool" where
  "children_below e h pos = (\<forall>i < length h. 0 < i \<and> (i - 1) div 2 = pos \<longrightarrow> \<not> entry_lt (h ! i) e)"

text \<open>
  I1 and I2: the dictionary finds every entry of the heap list at its position and has no
  other keys.
\<close>

definition index_ok :: "('k, 'p) PQDict \<Rightarrow> bool" where
  "index_ok self =
     (heap_indexed (heap self) (nodefinder self)
      \<and> dom (nodefinder self) \<subseteq> dkey ` set (heap self))"

text \<open>
  Heap order (invariant I3): no entry ranks higher than its parent, that is, \<open>heap[p] <
  heap[parent(p)]\<close> is false at every position \<open>p\<close> other than the root.
\<close>

definition heap_order :: "('k, 'p::linorder) PQDictEntry list \<Rightarrow> bool" where
  "heap_order h = (\<forall>p < length h. 0 < p \<longrightarrow> \<not> entry_lt (h ! p) (h ! ((p - 1) div 2)))"

text \<open>
  The calls of the sorted-extraction property: \<open>self[k] = p\<close> for each pair in turn, then
  \<open>popitem()\<close> \<open>n\<close> times collecting the results. An exception ends the run.
\<close>

fun insert_all :: "('k, 'p::linorder) PQDict \<Rightarrow> ('k \<times> 'p) list \<Rightarrow> (unit, 'k, 'p) outcome" where
  "insert_all self [] = (Inr (), self)"
| "insert_all self ((k, p) # rest) =
     (case setitem self k p of
        (Inl e, self') \<Rightarrow> (Inl e, self')
      | (Inr u, self') \<Rightarrow> insert_all self' rest)"

fun pop_n :: "nat \<Rightarrow> ('k, 'p::linorder) PQDict \<Rightarrow> (('k \<times> 'p) list, 'k, 'p) outcome" where
  "pop_n 0 self = (Inr [], self)"
| "pop_n (Suc n) self =
     (case popitem self of
        (Inl e, self') \<Rightarrow> (Inl e, self')
      | (Inr kp, self') \<Rightarrow>
          (case pop_n n self' of
             (Inl e, self'') \<Rightarrow> (Inl e, self'')
           | (Inr kps, self'') \<Rightarrow> (Inr (kp # kps), self'')))"

text \<open>
  The pair \<open>(dkey, pkey)\<close> that \<open>popitem\<close> and \<open>peek\<close> return for an entry.
\<close>

definition item :: "('k, 'p) PQDictEntry \<Rightarrow> 'k \<times> 'p" where
  "item e = (dkey e, pkey e)"

text \<open>
  The invariants I1 to I3 together, on a queue whose entries are all of class \<open>c\<close>.
\<close>

definition queue_inv :: "entry_class \<Rightarrow> ('k, 'p::linorder) PQDict \<Rightarrow> bool" where
  "queue_inv c self =
     (index_ok self \<and> heap_order (heap self) \<and> same_class c (heap self) \<and> create_entry self = c)"

text \<open>
  Priorities in the order of their rank: non-decreasing for the min class, non-increasing
  for the max class.
\<close>

definition rank_sorted :: "entry_class \<Rightarrow> ('p::linorder) list \<Rightarrow> bool" where
  "rank_sorted c ps = (case c of MinPQDEntry \<Rightarrow> sorted ps | MaxPQDEntry \<Rightarrow> sorted (rev ps))"

section \<open>Exchanges of two entries\<close>

lemma exchanges_length: "exchanges P hf hf' \<Longrightarrow> length (fst hf') = length (fst hf)"
  by (induction rule: exchanges.induct) auto

lemma exchanges_mset: "exchanges P hf hf' \<Longrightarrow> mset (fst hf') = mset (fst hf)"
  by (induction rule: exchanges.induct) (auto simp: mset_swap)

lemma exchanges_set: "exchanges P hf hf' \<Longrightarrow> set (fst hf') = set (fst hf)"
  using exchanges_mset mset_eq_setD by blast

lemma exchanges_outside: "exchanges P hf hf' \<Longrightarrow> \<not> P q \<Longrightarrow> fst hf' ! q = fst hf ! q"
  by (induction rule: exchanges.induct) (auto simp: nth_list_update)

lemma exchanges_other_keys:
  "exchanges P hf hf' \<Longrightarrow> k \<notin> dkey ` set (fst hf) \<Longrightarrow> snd hf' k = snd hf k"
proof (induction rule: exchanges.induct)
  case (exchanges_refl hf)
  then show ?case by simp
next
  case (exchanges_step i j h f hf')
  have "set (h[i := h ! j, j := h ! i]) = set h"
    using exchanges_step.hyps by (metis mset_eq_setD mset_swap)
  with exchanges_step show ?case by (auto simp: image_iff)
qed

lemma exchanges_dom:
  "exchanges P hf hf' \<Longrightarrow> dom (snd hf') \<subseteq> dom (snd hf) \<union> dkey ` set (fst hf)"
proof (induction rule: exchanges.induct)
  case (exchanges_refl hf)
  then show ?case by simp
next
  case (exchanges_step i j h f hf')
  have "set (h[i := h ! j, j := h ! i]) = set h"
    using exchanges_step.hyps by (metis mset_eq_setD mset_swap)
  with exchanges_step show ?case by (auto simp: image_iff)
qed

lemma heap_indexed_swap:
  assumes "heap_indexed h f" "i < length h" "j < length h"
  shows "heap_indexed (h[i := h ! j, j := h ! i]) (f(dkey (h ! j) \<mapsto> i, dkey (h ! i) \<mapsto> j))"
proof -
  have inj: "p = q" if "p < length h" "q < length h" "dkey (h ! p) = dkey (h ! q)" for p q
    using assms(1) that unfolding heap_indexed_def by (metis option.inject)
  show ?thesis
    unfolding heap_indexed_def
  proof (intro allI impI)
    fix p assume "p < length (h[i := h ! j, j := h ! i])"
    then have p: "p < length h" by simp
    show "(f(dkey (h ! j) \<mapsto> i, dkey (h ! i) \<mapsto> j)) (dkey (h[i := h ! j, j := h ! i] ! p)) = Some p"
    proof (cases "p = j")
      case True
      then show ?thesis using assms by simp
    next
      case pj: False
      show ?thesis
      proof (cases "p = i")
        case True
        then show ?thesis using assms pj inj[of i j] by auto
      next
        case False
        then show ?thesis using assms pj p inj[of p i] inj[of p j]
          by (auto simp: heap_indexed_def)
      qed
    qed
  qed
qed

lemma exchanges_heap_indexed:
  "exchanges P hf hf' \<Longrightarrow> heap_indexed (fst hf) (snd hf) \<Longrightarrow> heap_indexed (fst hf') (snd hf')"
  by (induction rule: exchanges.induct) (auto simp: heap_indexed_swap)

lemma exchanges_trans: "exchanges P a b \<Longrightarrow> exchanges P b c \<Longrightarrow> exchanges P a c"
  by (induction rule: exchanges.induct) (auto intro: exchanges.intros)

lemma exchanges_mono: "exchanges P a b \<Longrightarrow> (\<And>i. P i \<Longrightarrow> Q i) \<Longrightarrow> exchanges Q a b"
  by (induction rule: exchanges.induct) (auto intro: exchanges.intros)

section \<open>Positions of a subtree\<close>

declare in_subtree.simps [simp del]

lemma in_subtree_self [simp]: "in_subtree t t"
  by (simp add: in_subtree.simps)

lemma in_subtree_ge: "in_subtree t i \<Longrightarrow> t \<le> i"
  by (induction t i rule: in_subtree.induct) (metis in_subtree.simps le_refl nat_le_linear)

lemma in_subtree_parent: "in_subtree t i \<Longrightarrow> i \<noteq> t \<Longrightarrow> in_subtree t ((i - 1) div 2)"
  by (metis in_subtree.simps)

lemma in_subtree_child: 
  assumes "in_subtree t i" "(c - 1) div 2 = i" "0 < c"
  shows "in_subtree t c"
proof -
  have "t \<le> i" using assms(1) by (rule in_subtree_ge)
  moreover have "i < c" using assms(2,3) by linarith
  ultimately have "\<not> c \<le> t" by simp
  then show ?thesis using assms by (subst in_subtree.simps) simp
qed

lemma in_subtree_root [simp]: "in_subtree 0 i"
proof (induction i rule: less_induct)
  case (less x)
  show ?case
  proof (cases "x = 0")
    case True
    then show ?thesis by simp
  next
    case False
    then have "in_subtree 0 ((x - 1) div 2)" by (intro less) simp
    with False show ?thesis by (subst in_subtree.simps) simp
  qed
qed

section \<open>The loops as sequences of exchanges\<close>

declare swim_loop.simps [simp del] sink_loop.simps [simp del]

lemma swim_loop_exchanges:
  "swim_loop e t (h, f, pos) = (h', f', pos') \<Longrightarrow> pos < length h \<Longrightarrow> in_subtree t pos \<Longrightarrow>
   exchanges (in_subtree t) (h[pos := e], f(dkey e \<mapsto> pos)) (h'[pos' := e], f'(dkey e \<mapsto> pos'))
   \<and> pos' < length h' \<and> in_subtree t pos'"
proof (induction e t "(h, f, pos)" arbitrary: h f pos rule: swim_loop.induct)
  case (1 e t h f pos)
  show ?case
  proof (cases "t < pos \<and> entry_lt e (h ! ((pos - 1) div 2))")
    case True
    define p where "p = (pos - 1) div 2"
    have pp: "p < pos" "p < length h" "pos \<noteq> t" "p \<noteq> pos" using True "1.prems" by (auto simp: p_def)
    have sub: "in_subtree t p" unfolding p_def using "1.prems" pp by (intro in_subtree_parent) auto
    have eq: "swim_loop e t (h[pos := h ! p], f(dkey (h ! p) \<mapsto> pos), p) = (h', f', pos')"
      using "1.prems"(1) True by (subst (asm) swim_loop.simps) (simp add: p_def Let_def)
    have IH: "exchanges (in_subtree t) (h[pos := h ! p, p := e], f(dkey (h ! p) \<mapsto> pos, dkey e \<mapsto> p))
               (h'[pos' := e], f'(dkey e \<mapsto> pos')) \<and> pos' < length h' \<and> in_subtree t pos'"
      using "1.hyps"[of p "h ! p", OF _ _ _ _ eq] True pp sub by (simp add: p_def)
    let ?H = "h[pos := e]"
    have H1: "?H[pos := ?H ! p, p := ?H ! pos] = h[pos := h ! p, p := e]"
      using pp "1.prems" by simp
    have F1: "(f(dkey e \<mapsto> pos))(dkey (?H ! p) \<mapsto> pos, dkey (?H ! pos) \<mapsto> p) = f(dkey (h ! p) \<mapsto> pos, dkey e \<mapsto> p)"
      using pp "1.prems" by (intro ext) simp
    have "exchanges (in_subtree t) (?H[pos := ?H ! p, p := ?H ! pos],
            (f(dkey e \<mapsto> pos))(dkey (?H ! p) \<mapsto> pos, dkey (?H ! pos) \<mapsto> p))
            (h'[pos' := e], f'(dkey e \<mapsto> pos'))"
      by (simp only: H1 F1 IH)
    then have "exchanges (in_subtree t) (?H, f(dkey e \<mapsto> pos)) (h'[pos' := e], f'(dkey e \<mapsto> pos'))"
      using "1.prems" sub pp by (auto intro: exchanges_step[of _ pos p])
    with IH show ?thesis by simp
  next
    case False
    then have "(h', f', pos') = (h, f, pos)"
      using "1.prems"(1) by (subst (asm) swim_loop.simps) (auto simp: Let_def split: if_splits)
    then show ?thesis using "1.prems" by (auto intro: exchanges_refl)
  qed
qed

lemma sink_loop_exchanges:
  "sink_loop (h, f, pos) = (h', f', pos') \<Longrightarrow> pos < length h \<Longrightarrow> in_subtree t pos \<Longrightarrow>
   exchanges (in_subtree t) (h[pos := e], f(dkey e \<mapsto> pos)) (h'[pos' := e], f'(dkey e \<mapsto> pos'))
   \<and> pos' < length h' \<and> in_subtree t pos' \<and> length h' \<le> 2 * pos' + 1"
proof (induction "(h, f, pos)" arbitrary: h f pos rule: sink_loop.induct)
  case (1 h f pos)
  show ?case
  proof (cases "2 * pos + 1 < length h")
    case True
    define c where "c = (if 2 * pos + 2 < length h \<and> \<not> entry_lt (h ! (2 * pos + 1)) (h ! (2 * pos + 2))
                          then 2 * pos + 2 else 2 * pos + 1)"
    have cc: "pos < c" "c < length h" "(c - 1) div 2 = pos" "0 < c" using True by (auto simp: c_def)
    have sub: "in_subtree t c" using "1.prems" cc by (auto intro: in_subtree_child[of t pos c])
    have eq: "sink_loop (h[pos := h ! c], f(dkey (h ! c) \<mapsto> pos), c) = (h', f', pos')"
      using "1.prems"(1) True
      by (subst (asm) sink_loop.simps) (simp add: c_def Let_def cong: if_cong)
    have IH: "exchanges (in_subtree t) (h[pos := h ! c, c := e], f(dkey (h ! c) \<mapsto> pos, dkey e \<mapsto> c))
               (h'[pos' := e], f'(dkey e \<mapsto> pos')) \<and> pos' < length h' \<and> in_subtree t pos'
               \<and> length h' \<le> 2 * pos' + 1"
      using "1.hyps"[of "2 * pos + 1" "2 * pos + 2" c "h ! c", OF _ _ _ _ _ eq] True cc sub
      by (simp add: c_def)
    let ?H = "h[pos := e]"
    have H1: "?H[pos := ?H ! c, c := ?H ! pos] = h[pos := h ! c, c := e]"
      using cc "1.prems" by simp
    have F1: "(f(dkey e \<mapsto> pos))(dkey (?H ! c) \<mapsto> pos, dkey (?H ! pos) \<mapsto> c) = f(dkey (h ! c) \<mapsto> pos, dkey e \<mapsto> c)"
      using cc "1.prems" by (intro ext) simp
    have "exchanges (in_subtree t) (?H[pos := ?H ! c, c := ?H ! pos],
            (f(dkey e \<mapsto> pos))(dkey (?H ! c) \<mapsto> pos, dkey (?H ! pos) \<mapsto> c))
            (h'[pos' := e], f'(dkey e \<mapsto> pos'))"
      by (simp only: H1 F1 IH)
    then have "exchanges (in_subtree t) (?H, f(dkey e \<mapsto> pos)) (h'[pos' := e], f'(dkey e \<mapsto> pos'))"
      using "1.prems" sub cc by (auto intro: exchanges_step[of _ pos c])
    with IH show ?thesis by simp
  next
    case False
    then have "(h', f', pos') = (h, f, pos)"
      using "1.prems"(1) by (subst (asm) sink_loop.simps) (auto simp: Let_def split: if_splits)
    then show ?thesis using "1.prems" False by (auto intro: exchanges_refl)
  qed
qed

section \<open>Heap order around the hole\<close>

lemma entry_lt_asym: "cls a = cls b \<Longrightarrow> entry_lt a b \<Longrightarrow> \<not> entry_lt b a"
  by (auto simp: entry_lt_def split: entry_class.splits)

lemma not_entry_lt_trans:
  "cls a = cls b \<Longrightarrow> \<not> entry_lt a b \<Longrightarrow> \<not> entry_lt b c \<Longrightarrow> \<not> entry_lt a c"
  by (auto simp: entry_lt_def split: entry_class.splits)

lemma entry_lt_not_lt:
  "cls a = cls b \<Longrightarrow> cls s = cls a \<Longrightarrow> entry_lt a b \<Longrightarrow> \<not> entry_lt s b \<Longrightarrow> \<not> entry_lt s a"
  by (auto simp: entry_lt_def split: entry_class.splits)

lemma same_class_nth: "same_class c h \<Longrightarrow> i < length h \<Longrightarrow> cls (h ! i) = c"
  by (simp add: same_class_def)

lemma same_class_update: "same_class c h \<Longrightarrow> cls x = c \<Longrightarrow> same_class c (h[i := x])"
  unfolding same_class_def by (metis insert_iff set_update_subset_insert subsetD)

text \<open>One step of the swim loop keeps the order around the hole.\<close>

lemma swim_step_order:
  assumes pos: "pos < length h" "t < pos" "in_subtree t pos"
    and cl: "same_class c h" "cls e = c"
    and ho: "hole_order t h pos" and cb: "children_below e h pos"
    and lt: "entry_lt e (h ! ((pos - 1) div 2))"
  shows "hole_order t (h[pos := h ! ((pos - 1) div 2)]) ((pos - 1) div 2)
         \<and> children_below e (h[pos := h ! ((pos - 1) div 2)]) ((pos - 1) div 2)"
proof -
  define p where "p = (pos - 1) div 2"
  let ?h1 = "h[pos := h ! p]"
  have p0: "in_subtree t p"
    unfolding p_def using in_subtree_parent[OF pos(3)] pos(2) by simp
  have p: "p < pos" "p < length h" "p \<noteq> pos" "(p - 1) div 2 \<noteq> pos" "in_subtree t p"
    using pos p0 by (auto simp: p_def)
  have A: "\<not> entry_lt (h ! i) (h ! ((i - 1) div 2))"
    if "i < length h" "in_subtree t i" "i \<noteq> t" "i \<noteq> pos" "(i - 1) div 2 \<noteq> pos" for i
    using ho that unfolding hole_order_def by blast
  have C: "\<not> entry_lt (h ! i) (h ! p)" if "i < length h" "0 < i" "(i - 1) div 2 = pos" for i
    using ho that pos unfolding hole_order_def p_def by blast
  have clh: "cls (h ! i) = c" if "i < length h" for i
    using cl that by (simp add: same_class_nth)
  have sib: "\<not> entry_lt (h ! i) (h ! p)" if "i < length h" "0 < i" "(i - 1) div 2 = p" "i \<noteq> pos" for i
  proof -
    have "in_subtree t i" using p(5) that by (auto intro: in_subtree_child[of t p i])
    moreover have "i \<noteq> t" using in_subtree_ge[OF p(5)] that by linarith
    ultimately show ?thesis using A[of i] that p by simp
  qed
  have A1: "\<not> entry_lt (?h1 ! i) (?h1 ! ((i - 1) div 2))"
    if "i < length h" "in_subtree t i" "i \<noteq> t" "i \<noteq> p" "(i - 1) div 2 \<noteq> p" for i
  proof (cases "(i - 1) div 2 = pos")
    case True
    then have "0 < i" "i \<noteq> pos" using that pos by (auto simp: p_def)
    then show ?thesis using True C[of i] that pos by simp
  next
    case False
    moreover have "i \<noteq> pos" using that by (auto simp: p_def)
    ultimately show ?thesis using A[of i] that by simp
  qed
  have B1: "\<not> entry_lt (?h1 ! i) e" if "i < length h" "0 < i" "(i - 1) div 2 = p" for i
  proof (cases "i = pos")
    case True
    then show ?thesis using lt pos p cl clh[of p] entry_lt_asym[of e "h ! p"] by (simp add: p_def)
  next
    case False
    have "\<not> entry_lt (h ! i) (h ! p)" using sib that False by simp
    then have "\<not> entry_lt (h ! i) e"
      using lt entry_lt_not_lt[of e "h ! p" "h ! i"] cl clh[of p] clh[of i] p that by (simp add: p_def)
    then show ?thesis using False by simp
  qed
  have C1: "\<not> entry_lt (?h1 ! i) (?h1 ! ((p - 1) div 2))"
    if "p \<noteq> t" "i < length h" "0 < i" "(i - 1) div 2 = p" for i
  proof -
    have pp: "\<not> entry_lt (h ! p) (h ! ((p - 1) div 2))"
      using A[of p] p that by simp
    have "(p - 1) div 2 < length h" using p by linarith
    show ?thesis
    proof (cases "i = pos")
      case True
      then show ?thesis using pp p pos by simp
    next
      case False
      have "\<not> entry_lt (h ! i) (h ! p)" using sib that False by simp
      then have "\<not> entry_lt (h ! i) (h ! ((p - 1) div 2))"
        using pp not_entry_lt_trans[of "h ! i" "h ! p"] clh[of i] clh[of p] that p by simp
      then show ?thesis using False p by simp
    qed
  qed
  show ?thesis
    unfolding hole_order_def children_below_def p_def[symmetric]
    using A1 B1 C1 by simp
qed

lemma swim_exit_order:
  assumes pos: "pos < length h" "in_subtree t pos"
    and ho: "hole_order t h pos" and cb: "children_below e h pos"
    and stop: "pos \<le> t \<or> \<not> entry_lt e (h ! ((pos - 1) div 2))"
  shows "subtree_order t (h[pos := e])"
  unfolding subtree_order_def
proof (intro allI impI)
  fix i assume i: "i < length (h[pos := e])" "in_subtree t i \<and> i \<noteq> t"
  have ti: "t < i" using i in_subtree_ge[of t i] by auto
  show "\<not> entry_lt (h[pos := e] ! i) (h[pos := e] ! ((i - 1) div 2))"
  proof (cases "i = pos")
    case True
    then have "\<not> entry_lt e (h ! ((pos - 1) div 2))" using stop ti by auto
    moreover have "(pos - 1) div 2 \<noteq> pos" using ti True by linarith
    ultimately show ?thesis using True pos by simp
  next
    case ip: False
    show ?thesis
    proof (cases "(i - 1) div 2 = pos")
      case True
      then show ?thesis using cb i ip ti unfolding children_below_def by simp
    next
      case False
      then show ?thesis using ho i ip unfolding hole_order_def by simp
    qed
  qed
qed

lemma swim_loop_order:
  "swim_loop e t (h, f, pos) = (h', f', pos') \<Longrightarrow> pos < length h \<Longrightarrow> in_subtree t pos \<Longrightarrow>
   same_class c h \<Longrightarrow> cls e = c \<Longrightarrow> hole_order t h pos \<Longrightarrow> children_below e h pos \<Longrightarrow>
   subtree_order t (h'[pos' := e])"
proof (induction e t "(h, f, pos)" arbitrary: h f pos rule: swim_loop.induct)
  case (1 e t h f pos)
  show ?case
  proof (cases "t < pos \<and> entry_lt e (h ! ((pos - 1) div 2))")
    case True
    define p where "p = (pos - 1) div 2"
    have p: "p < pos" "p < length h" using True "1.prems" by (auto simp: p_def)
    have sub: "in_subtree t p"
      unfolding p_def using in_subtree_parent[of t pos] "1.prems" True by simp
    have eq: "swim_loop e t (h[pos := h ! p], f(dkey (h ! p) \<mapsto> pos), p) = (h', f', pos')"
      using "1.prems"(1) True by (subst (asm) swim_loop.simps) (simp add: p_def Let_def)
    have step: "hole_order t (h[pos := h ! p]) p \<and> children_below e (h[pos := h ! p]) p"
      unfolding p_def using swim_step_order[of pos h t c e] "1.prems" True by simp
    have cl: "same_class c (h[pos := h ! p])"
      using "1.prems" p by (simp add: same_class_update same_class_nth)
    show ?thesis
      using "1.hyps"[of p "h ! p", OF _ _ _ _ eq] True p sub step cl "1.prems"(5)
      by (simp add: p_def)
  next
    case False
    then have "(h', f', pos') = (h, f, pos)"
      using "1.prems"(1) by (subst (asm) swim_loop.simps) (auto simp: Let_def split: if_splits)
    moreover have "pos \<le> t \<or> \<not> entry_lt e (h ! ((pos - 1) div 2))" using False by auto
    ultimately show ?thesis using swim_exit_order[of pos h t e] "1.prems" by simp
  qed
qed

text \<open>One step of the sink loop: the higher-ranking child moves up into the hole.\<close>

lemma sink_step_order:
  assumes pos: "pos < length h" "in_subtree t pos" "2 * pos + 1 < length h"
    and cl: "same_class c h"
    and ho: "hole_order t h pos"
    and c: "ch = (if 2 * pos + 2 < length h \<and> \<not> entry_lt (h ! (2 * pos + 1)) (h ! (2 * pos + 2))
                 then 2 * pos + 2 else 2 * pos + 1)"
  shows "hole_order t (h[pos := h ! ch]) ch"
proof -
  let ?h1 = "h[pos := h ! ch]"
  have cc: "pos < ch" "ch < length h" "(ch - 1) div 2 = pos" "0 < ch" "ch = 2 * pos + 1 \<or> ch = 2 * pos + 2"
    using pos by (auto simp: c)
  have tc: "t \<le> pos" "ch \<noteq> t" using in_subtree_ge[OF pos(2)] cc by auto
  have clh: "cls (h ! i) = c" if "i < length h" for i
    using cl that by (simp add: same_class_nth)
  have A: "\<not> entry_lt (h ! i) (h ! ((i - 1) div 2))"
    if "i < length h" "in_subtree t i" "i \<noteq> t" "i \<noteq> pos" "(i - 1) div 2 \<noteq> pos" for i
    using ho that unfolding hole_order_def by blast
  have C: "\<not> entry_lt (h ! i) (h ! ((pos - 1) div 2))"
    if "pos \<noteq> t" "i < length h" "0 < i" "(i - 1) div 2 = pos" for i
    using ho that unfolding hole_order_def by blast
  have sib: "\<not> entry_lt (h ! i) (h ! ch)" if "i < length h" "0 < i" "(i - 1) div 2 = pos" "i \<noteq> ch" for i
  proof -
    have "i = 2 * pos + 1 \<or> i = 2 * pos + 2" using that by linarith
    then show ?thesis
      using that cc c entry_lt_asym[of "h ! (2 * pos + 1)" "h ! (2 * pos + 2)"]
        clh[of "2 * pos + 1"] clh[of "2 * pos + 2"]
      by (auto split: if_splits)
  qed
  have A1: "\<not> entry_lt (?h1 ! i) (?h1 ! ((i - 1) div 2))"
    if "i < length h" "in_subtree t i" "i \<noteq> t" "i \<noteq> ch" "(i - 1) div 2 \<noteq> ch" for i
  proof (cases "i = pos")
    case True
    then have "(pos - 1) div 2 \<noteq> pos" using that tc by linarith
    then show ?thesis using True C[of ch] cc that pos by simp
  next
    case ip: False
    show ?thesis
    proof (cases "(i - 1) div 2 = pos")
      case True
      have "0 < i" using True ip by (cases i) auto
      then show ?thesis using sib[of i] True ip that pos by simp
    next
      case False
      then show ?thesis using A[of i] that ip by simp
    qed
  qed
  have C1: "\<not> entry_lt (?h1 ! i) (?h1 ! ((ch - 1) div 2))"
    if "i < length h" "0 < i" "(i - 1) div 2 = ch" for i
  proof -
    have "in_subtree t ch" using pos cc by (auto intro: in_subtree_child[of t pos ch])
    then have "in_subtree t i" using that by (auto intro: in_subtree_child[of t ch i])
    moreover have "i \<noteq> t" "i \<noteq> pos" "ch \<noteq> pos" using that cc tc by linarith+
    ultimately have "\<not> entry_lt (h ! i) (h ! ch)" using A[of i] that by simp
    then show ?thesis using cc that pos \<open>i \<noteq> pos\<close> by simp
  qed
  show ?thesis
    unfolding hole_order_def using A1 C1 tc by simp
qed

lemma sink_loop_order:
  "sink_loop (h, f, pos) = (h', f', pos') \<Longrightarrow> pos < length h \<Longrightarrow> in_subtree t pos \<Longrightarrow>
   same_class c h \<Longrightarrow> hole_order t h pos \<Longrightarrow> hole_order t h' pos' \<and> same_class c h'"
proof (induction "(h, f, pos)" arbitrary: h f pos rule: sink_loop.induct)
  case (1 h f pos)
  show ?case
  proof (cases "2 * pos + 1 < length h")
    case True
    define ch where "ch = (if 2 * pos + 2 < length h \<and> \<not> entry_lt (h ! (2 * pos + 1)) (h ! (2 * pos + 2))
                          then 2 * pos + 2 else 2 * pos + 1)"
    have cc: "pos < ch" "ch < length h" "(ch - 1) div 2 = pos" "0 < ch" using True by (auto simp: ch_def)
    have sub: "in_subtree t ch" using "1.prems" cc by (auto intro: in_subtree_child[of t pos ch])
    have eq: "sink_loop (h[pos := h ! ch], f(dkey (h ! ch) \<mapsto> pos), ch) = (h', f', pos')"
      using "1.prems"(1) True
      by (subst (asm) sink_loop.simps) (simp add: ch_def Let_def cong: if_cong)
    have step: "hole_order t (h[pos := h ! ch]) ch"
      using sink_step_order[of pos h t c ch] "1.prems" True ch_def by simp
    have cl: "same_class c (h[pos := h ! ch])"
      using "1.prems" cc by (simp add: same_class_update same_class_nth)
    show ?thesis
      using "1.hyps"[of "2 * pos + 1" "2 * pos + 2" ch "h ! ch", OF _ _ _ _ _ eq] True cc sub step cl
      by (simp add: ch_def)
  next
    case False
    then have "(h', f', pos') = (h, f, pos)"
      using "1.prems"(1) by (subst (asm) sink_loop.simps) (auto simp: Let_def split: if_splits)
    then show ?thesis using "1.prems" by simp
  qed
qed

section \<open>What swim and sink return\<close>

lemma hole_order_update: "t \<le> pos \<Longrightarrow> hole_order t (h[pos := x]) pos = hole_order t h pos"
proof -
  assume tp: "t \<le> pos"
  have a: "i \<noteq> pos" if "0 < i" "(i - 1) div 2 = pos" for i using that by linarith
  have b: "(pos - 1) div 2 \<noteq> pos" if "pos \<noteq> t" using that tp by linarith
  have 1: "(h[pos := x]) ! i = h ! i" if "i \<noteq> pos" for i using that by simp
  show ?thesis
    unfolding hole_order_def
  proof (intro arg_cong2[where f="(\<and>)"])
    show "(\<forall>i<length (h[pos := x]). in_subtree t i \<and> i \<noteq> t \<and> i \<noteq> pos \<and> (i - 1) div 2 \<noteq> pos \<longrightarrow>
            \<not> entry_lt (h[pos := x] ! i) (h[pos := x] ! ((i - 1) div 2)))
        = (\<forall>i<length h. in_subtree t i \<and> i \<noteq> t \<and> i \<noteq> pos \<and> (i - 1) div 2 \<noteq> pos \<longrightarrow>
            \<not> entry_lt (h ! i) (h ! ((i - 1) div 2)))"
      by (auto simp: 1)
    show "(pos \<noteq> t \<longrightarrow> (\<forall>i<length (h[pos := x]). 0 < i \<and> (i - 1) div 2 = pos \<longrightarrow>
            \<not> entry_lt (h[pos := x] ! i) (h[pos := x] ! ((pos - 1) div 2))))
        = (pos \<noteq> t \<longrightarrow> (\<forall>i<length h. 0 < i \<and> (i - 1) div 2 = pos \<longrightarrow>
            \<not> entry_lt (h ! i) (h ! ((pos - 1) div 2))))"
    proof (cases "pos = t")
      case True
      then show ?thesis by simp
    next
      case False
      have "(h[pos := x]) ! ((pos - 1) div 2) = h ! ((pos - 1) div 2)" using b[OF False] by simp
      moreover have "(h[pos := x]) ! i = h ! i" if "0 < i" "(i - 1) div 2 = pos" for i
        using a[OF that] by simp
      ultimately show ?thesis by auto
    qed
  qed
qed

lemma children_below_update: "children_below e (h[pos := x]) pos = children_below e h pos"
proof -
  have a: "i \<noteq> pos" if "0 < i" "(i - 1) div 2 = pos" for i using that by linarith
  show ?thesis unfolding children_below_def using a by (auto simp: nth_list_update)
qed

lemma children_below_leaf: "length h \<le> 2 * pos + 1 \<Longrightarrow> children_below e h pos"
  unfolding children_below_def by (auto; linarith)

lemma swim_result:
  assumes "pos < length (heap s)" "in_subtree t pos"
  shows "\<exists>s'. swim s pos t = (Inr (), s')
           \<and> exchanges (in_subtree t) (heap s, (nodefinder s)(dkey (heap s ! pos) \<mapsto> pos))
                (heap s', nodefinder s')
           \<and> create_entry s' = create_entry s"
proof -
  obtain h' f' pos' where eq: "swim_loop (heap s ! pos) t (heap s, nodefinder s, pos) = (h', f', pos')"
    by (metis prod_cases3)
  from swim_loop_exchanges[OF eq assms]
  show ?thesis using assms eq by (simp add: swim_def Let_def)
qed

lemma swim_order:
  assumes "swim s pos t = (r, s')" "pos < length (heap s)" "in_subtree t pos"
    "same_class c (heap s)" "hole_order t (heap s) pos" "children_below (heap s ! pos) (heap s) pos"
  shows "subtree_order t (heap s')"
proof -
  obtain h' f' pos' where eq: "swim_loop (heap s ! pos) t (heap s, nodefinder s, pos) = (h', f', pos')"
    by (metis prod_cases3)
  have "subtree_order t (h'[pos' := heap s ! pos])"
    using swim_loop_order[OF eq assms(2,3,4) _ assms(5,6)] assms(2,4) by (simp add: same_class_nth)
  then show ?thesis using assms eq by (auto simp: swim_def Let_def)
qed

lemma sink_result:
  assumes "t < length (heap s)"
  shows "\<exists>s'. sink s t = (Inr (), s')
           \<and> exchanges (in_subtree t) (heap s, (nodefinder s)(dkey (heap s ! t) \<mapsto> t))
                (heap s', nodefinder s')
           \<and> create_entry s' = create_entry s"
proof -
  define e where "e = heap s ! t"
  obtain h1 f1 pos1 where eq: "sink_loop (heap s, nodefinder s, t) = (h1, f1, pos1)"
    by (metis prod_cases3)
  define s1 where "s1 = s\<lparr>heap := h1[pos1 := e], nodefinder := f1(dkey e \<mapsto> pos1)\<rparr>"
  have L: "exchanges (in_subtree t) ((heap s)[t := e], (nodefinder s)(dkey e \<mapsto> t)) (h1[pos1 := e], f1(dkey e \<mapsto> pos1))"
    "pos1 < length h1" "in_subtree t pos1"
    using sink_loop_exchanges[OF eq assms, of t e] by simp_all
  have p1: "pos1 < length (heap s1)" using L by (simp add: s1_def)
  from swim_result[OF p1 L(3)] obtain s' where
    sw: "swim s1 pos1 t = (Inr (), s')"
      "exchanges (in_subtree t) (heap s1, (nodefinder s1)(dkey (heap s1 ! pos1) \<mapsto> pos1)) (heap s', nodefinder s')"
      "create_entry s' = create_entry s1"
    by blast
  have "heap s1 ! pos1 = e" using L by (simp add: s1_def)
  then have "(nodefinder s1)(dkey (heap s1 ! pos1) \<mapsto> pos1) = nodefinder s1"
    by (auto simp: s1_def)
  then have "exchanges (in_subtree t) (h1[pos1 := e], f1(dkey e \<mapsto> pos1)) (heap s', nodefinder s')"
    using sw(2) by (simp add: s1_def)
  then have "exchanges (in_subtree t) ((heap s)[t := e], (nodefinder s)(dkey e \<mapsto> t)) (heap s', nodefinder s')"
    using L(1) exchanges_trans by blast
  moreover have "sink s t = swim s1 pos1 t"
    using assms eq by (simp add: sink_def s1_def e_def Let_def)
  ultimately show ?thesis using sw by (simp add: e_def s1_def)
qed

lemma sink_order:
  assumes "sink s t = (r, s')" "t < length (heap s)" "same_class c (heap s)" "hole_order t (heap s) t"
  shows "subtree_order t (heap s')"
proof -
  define e where "e = heap s ! t"
  obtain h1 f1 pos1 where eq: "sink_loop (heap s, nodefinder s, t) = (h1, f1, pos1)"
    by (metis prod_cases3)
  define s1 where "s1 = s\<lparr>heap := h1[pos1 := e], nodefinder := f1(dkey e \<mapsto> pos1)\<rparr>"
  have L: "pos1 < length h1" "in_subtree t pos1" "length h1 \<le> 2 * pos1 + 1"
    using sink_loop_exchanges[OF eq assms(2), of t e] by simp_all
  have O: "hole_order t h1 pos1" "same_class c h1"
    using sink_loop_order[OF eq assms(2) _ assms(3,4)] by simp_all
  have ce: "cls e = c" using assms by (simp add: e_def same_class_nth)
  have sw: "swim s1 pos1 t = (r, s')"
    using assms(1,2) eq by (simp add: sink_def s1_def e_def Let_def)
  have "subtree_order t (heap s')"
  proof (rule swim_order[OF sw])
    show "pos1 < length (heap s1)" using L by (simp add: s1_def)
    show "in_subtree t pos1" by (rule L)
    show "same_class c (heap s1)" using O ce by (simp add: s1_def same_class_update)
    show "hole_order t (heap s1) pos1"
      using O in_subtree_ge[OF L(2)] by (simp add: s1_def hole_order_update)
    show "children_below (heap s1 ! pos1) (heap s1) pos1"
      using L by (simp add: s1_def children_below_leaf children_below_update)
  qed
  then show ?thesis .
qed

section \<open>The position index\<close>

lemma heap_indexed_inj:
  "heap_indexed h f \<Longrightarrow> p < length h \<Longrightarrow> q < length h \<Longrightarrow> dkey (h ! p) = dkey (h ! q) \<Longrightarrow> p = q"
  unfolding heap_indexed_def by (metis option.inject)

lemma heap_indexed_distinct: "heap_indexed h f \<Longrightarrow> distinct (map dkey h)"
  by (auto simp: distinct_conv_nth dest: heap_indexed_inj)

lemma heap_indexed_distinct_entries: "heap_indexed h f \<Longrightarrow> distinct h"
  using heap_indexed_distinct distinct_map by blast

lemma heap_indexed_dom: "heap_indexed h f \<Longrightarrow> dkey ` set h \<subseteq> dom f"
  unfolding heap_indexed_def by (auto simp: in_set_conv_nth)

lemma index_ok_dom: "index_ok s \<Longrightarrow> dom (nodefinder s) = dkey ` set (heap s)"
  unfolding index_ok_def using heap_indexed_dom by blast

lemma index_ok_lookup:
  "index_ok s \<Longrightarrow> nodefinder s k = Some pos \<Longrightarrow> pos < length (heap s) \<and> dkey (heap s ! pos) = k"
proof -
  assume ok: "index_ok s" and f: "nodefinder s k = Some pos"
  then have "k \<in> dkey ` set (heap s)" unfolding index_ok_def by auto
  then obtain q where q: "q < length (heap s)" "dkey (heap s ! q) = k"
    by (auto simp: in_set_conv_nth)
  then have "nodefinder s k = Some q" using ok unfolding index_ok_def heap_indexed_def by auto
  then show ?thesis using f q by simp
qed

lemma index_ok_len: "index_ok s \<Longrightarrow> len s = length (heap s)"
proof -
  assume ok: "index_ok s"
  have "distinct (map dkey (heap s))" using ok heap_indexed_distinct unfolding index_ok_def by blast
  then have "card (dkey ` set (heap s)) = length (heap s)"
    by (metis distinct_card length_map set_map)
  then show ?thesis using index_ok_dom[OF ok] by (simp add: len_def)
qed

lemma index_ok_getitem_in:
  "index_ok s \<Longrightarrow> e \<in> set (heap s) \<Longrightarrow> getitem s (dkey e) = Inr (pkey e)"
  unfolding index_ok_def heap_indexed_def getitem_def
  by (auto simp: in_set_conv_nth)

lemma index_ok_getitem_notin:
  "index_ok s \<Longrightarrow> k \<notin> dkey ` set (heap s) \<Longrightarrow> getitem s k = Inl KeyError"
  using index_ok_dom[of s] by (auto simp: getitem_def split: option.splits)

lemma index_ok_contains: "index_ok s \<Longrightarrow> contains s k \<longleftrightarrow> k \<in> dkey ` set (heap s)"
  using index_ok_dom[of s] by (simp add: contains_def)

lemma exchanges_index:
  assumes "exchanges P (h, f) (h', f')" "heap_indexed h f" "dom f \<subseteq> D \<union> dkey ` set h"
  shows "heap_indexed h' f' \<and> dom f' \<subseteq> D \<union> dkey ` set h' \<and> mset h' = mset h \<and> length h' = length h"
proof -
  have "heap_indexed h' f'" using exchanges_heap_indexed[OF assms(1)] assms(2) by simp
  moreover have "set h' = set h" using exchanges_set[OF assms(1)] by simp
  moreover have "dom f' \<subseteq> dom f \<union> dkey ` set h" using exchanges_dom[OF assms(1)] by simp
  moreover have "mset h' = mset h" using exchanges_mset[OF assms(1)] by simp
  moreover have "length h' = length h" using exchanges_length[OF assms(1)] by simp
  ultimately show ?thesis using assms(3) by auto
qed

lemma mset_butlast_update:
  assumes "pos < length h - 1"
  shows "mset ((butlast h)[pos := last h]) = mset h - {#h ! pos#}"
proof -
  have ne: "h \<noteq> []" using assms by auto
  then have h: "h = butlast h @ [last h]" by simp
  have p: "pos < length (butlast h)" using assms by simp
  have "mset ((butlast h)[pos := last h]) = add_mset (last h) (mset (butlast h) - {#butlast h ! pos#})"
    using p by (simp add: mset_update)
  moreover have "butlast h ! pos = h ! pos" using p by (simp add: nth_butlast)
  moreover have "h ! pos \<in># mset (butlast h)" using p nth_butlast[of pos h] 
    by (metis in_multiset_in_set nth_mem)
  moreover have "mset h = add_mset (last h) (mset (butlast h))" by (subst h) simp
  ultimately show ?thesis by simp
qed

lemma mset_butlast_last:
  assumes "h \<noteq> []"
  shows "mset (butlast h) = mset h - {#h ! (length h - 1)#}"
proof -
  have "h = butlast h @ [last h]" using assms by simp
  then have "mset h = add_mset (last h) (mset (butlast h))" by (metis mset.simps(2) mset_append union_mset_add_mset_right add.right_neutral mset.simps(1))
  then show ?thesis using assms by (simp add: last_conv_nth)
qed

section \<open>Insert and update\<close>

lemma reposition_result:
  assumes "pos < length (heap s)" "nodefinder s (dkey (heap s ! pos)) = Some pos"
  shows "\<exists>s'. reposition s pos = (Inr (), s')
           \<and> exchanges (\<lambda>i. True) (heap s, nodefinder s) (heap s', nodefinder s')
           \<and> create_entry s' = create_entry s"
proof -
  have idem: "(nodefinder s)(dkey (heap s ! pos) \<mapsto> pos) = nodefinder s"
    using assms(2) by (rule fun_upd_idem)
  have sw: "\<exists>s'. swim s pos 0 = (Inr (), s')
           \<and> exchanges (\<lambda>i. True) (heap s, nodefinder s) (heap s', nodefinder s')
           \<and> create_entry s' = create_entry s"
    using swim_result[OF assms(1), of 0] idem exchanges_mono[of "in_subtree 0" _ _ "\<lambda>i. True"]
    by fastforce
  have sk: "\<exists>s'. sink s pos = (Inr (), s')
           \<and> exchanges (\<lambda>i. True) (heap s, nodefinder s) (heap s', nodefinder s')
           \<and> create_entry s' = create_entry s"
    using sink_result[OF assms(1)] idem exchanges_mono[of "in_subtree pos" _ _ "\<lambda>i. True"]
    by fastforce
  have id: "\<exists>s'. (Inr (), s) = (Inr (), s')
           \<and> exchanges (\<lambda>i. True) (heap s, nodefinder s) (heap s', nodefinder s')
           \<and> create_entry s' = create_entry s"
    by (auto intro: exchanges_refl)
  show ?thesis
    unfolding reposition_def Let_def using sw sk id by (simp only: split: if_split) simp
qed

lemma setitem_new:
  assumes ok: "index_ok s" and k: "nodefinder s k = None"
  shows "\<exists>s'. setitem s k p = (Inr (), s') \<and> index_ok s'
           \<and> mset (heap s') = add_mset (new_entry (create_entry s) k p) (mset (heap s))
           \<and> create_entry s' = create_entry s"
proof -
  define e where "e = new_entry (create_entry s) k p"
  define n where "n = length (heap s)"
  define s1 where "s1 = s\<lparr>heap := heap s @ [e], nodefinder := (nodefinder s)(k \<mapsto> n)\<rparr>"
  have ke: "dkey e = k" by (simp add: e_def new_entry_def)
  have n1: "n < length (heap s1)" "in_subtree 0 n" by (simp_all add: s1_def n_def)
  have e1: "heap s1 ! n = e" by (simp add: s1_def n_def)
  from swim_result[OF n1] obtain s' where
    sw: "swim s1 n 0 = (Inr (), s')"
      "exchanges (in_subtree 0) (heap s1, (nodefinder s1)(dkey (heap s1 ! n) \<mapsto> n)) (heap s', nodefinder s')"
      "create_entry s' = create_entry s1"
    by blast
  have f1: "(nodefinder s1)(dkey (heap s1 ! n) \<mapsto> n) = nodefinder s1"
    by (simp add: e1 ke) (simp add: s1_def)
  have knot: "k \<notin> dkey ` set (heap s)" using index_ok_dom[OF ok] k by (metis domIff)
  have hi: "heap_indexed (heap s1) (nodefinder s1)"
    unfolding heap_indexed_def
  proof (intro allI impI)
    fix q assume "q < length (heap s1)"
    then have "q < n \<or> q = n" by (auto simp: s1_def n_def)
    then show "nodefinder s1 (dkey (heap s1 ! q)) = Some q"
    proof
      assume q: "q < n"
      then have "dkey (heap s ! q) \<noteq> k" using knot by (auto simp: n_def)
      then show ?thesis using q ok unfolding index_ok_def heap_indexed_def
        by (simp add: s1_def n_def nth_append)
    next
      assume "q = n"
      then show ?thesis by (simp add: s1_def n_def ke)
    qed
  qed
  have d1: "dom (nodefinder s1) \<subseteq> {} \<union> dkey ` set (heap s1)"
    using index_ok_dom[OF ok] by (auto simp: s1_def ke)
  have ex: "exchanges (in_subtree 0) (heap s1, nodefinder s1) (heap s', nodefinder s')"
    using sw(2) f1 by simp
  from exchanges_index[OF ex hi d1]
  have "index_ok s'" "mset (heap s') = mset (heap s1)" by (simp_all add: index_ok_def)
  moreover have "setitem s k p = swim s1 n 0"
    using k by (simp add: setitem_def s1_def n_def e_def Let_def)
  ultimately show ?thesis using sw by (simp add: s1_def e_def)
qed

lemma setitem_update:
  assumes ok: "index_ok s" and k: "nodefinder s k = Some pos"
  shows "\<exists>s'. setitem s k p = (Inr (), s') \<and> index_ok s'
           \<and> mset (heap s') = add_mset ((heap s ! pos)\<lparr>pkey := p\<rparr>) (mset (heap s) - {#heap s ! pos#})
           \<and> create_entry s' = create_entry s"
proof -
  have pos: "pos < length (heap s)" "dkey (heap s ! pos) = k" using index_ok_lookup[OF ok k] by auto
  define s1 where "s1 = s\<lparr>heap := (heap s)[pos := (heap s ! pos)\<lparr>pkey := p\<rparr>]\<rparr>"
  have keys: "map dkey (heap s1) = map dkey (heap s)"
    using pos by (auto simp: s1_def list_eq_iff_nth_eq nth_list_update)
  have hi: "heap_indexed (heap s1) (nodefinder s1)"
    using ok keys unfolding index_ok_def heap_indexed_def
    by (metis (no_types, lifting) length_map nth_map s1_def
        PQDict.select_convs(2) PQDict.surjective PQDict.update_convs(1))
  have d1: "dom (nodefinder s1) \<subseteq> {} \<union> dkey ` set (heap s1)"
    using ok keys unfolding index_ok_def by (metis s1_def set_map sup_bot_left
        PQDict.select_convs(2) PQDict.surjective PQDict.update_convs(1))
  have p1: "pos < length (heap s1)" by (simp add: s1_def pos)
  have f1: "nodefinder s1 (dkey (heap s1 ! pos)) = Some pos"
    using hi p1 unfolding heap_indexed_def by simp
  from reposition_result[OF p1 f1] obtain s' where
    r: "reposition s1 pos = (Inr (), s')"
      "exchanges (\<lambda>i. True) (heap s1, nodefinder s1) (heap s', nodefinder s')"
      "create_entry s' = create_entry s1"
    by blast
  from exchanges_index[OF r(2) hi d1]
  have "index_ok s'" "mset (heap s') = mset (heap s1)" by (simp_all add: index_ok_def)
  moreover have "mset (heap s1) = add_mset ((heap s ! pos)\<lparr>pkey := p\<rparr>) (mset (heap s) - {#heap s ! pos#})"
    using pos by (simp add: s1_def mset_update)
  moreover have "setitem s k p = reposition s1 pos"
    using k pos by (simp add: setitem_def s1_def)
  ultimately show ?thesis using r by (simp add: s1_def)
qed

section \<open>Removal of a key\<close>

lemma remove_last_index:
  assumes ok: "index_ok s" and k: "nodefinder s k = Some pos" and last: "pos = length (heap s) - 1"
  shows "index_ok (s\<lparr>nodefinder := (nodefinder s)(k := None), heap := butlast (heap s)\<rparr>)
         \<and> mset (butlast (heap s)) = mset (heap s) - {#heap s ! pos#}"
proof -
  have pos: "pos < length (heap s)" "dkey (heap s ! pos) = k" using index_ok_lookup[OF ok k] by auto
  then have ne: "heap s \<noteq> []" by auto
  have hi: "heap_indexed (heap s) (nodefinder s)" using ok by (simp add: index_ok_def)
  have other: "dkey (heap s ! q) \<noteq> k" if "q < length (heap s) - 1" for q
  proof -
    have "q < length (heap s)" using that by simp
    from heap_indexed_inj[OF hi this pos(1)] show ?thesis using that pos last by auto
  qed
  have 1: "heap_indexed (butlast (heap s)) ((nodefinder s)(k := None))"
    unfolding heap_indexed_def using hi other
    by (auto simp: nth_butlast heap_indexed_def)
  have "dom (nodefinder s) = dkey ` set (heap s)" by (rule index_ok_dom[OF ok])
  moreover have "set (heap s) = insert (heap s ! pos) (set (butlast (heap s)))"
    using ne last by (metis append_butlast_last_id last_conv_nth list.simps(15) rotate1.simps(2) set_rotate1)
  ultimately have 2: "dom ((nodefinder s)(k := None)) \<subseteq> dkey ` set (butlast (heap s))"
    using pos by auto
  show ?thesis using 1 2 mset_butlast_last[OF ne] last by (simp add: index_ok_def)
qed

lemma remove_inner_index:
  assumes ok: "index_ok s" and k: "nodefinder s k = Some pos" and inner: "pos \<noteq> length (heap s) - 1"
  shows "\<exists>s'. reposition (s\<lparr>nodefinder := (nodefinder s)(k := None), heap := butlast (heap s),
                           heap := (butlast (heap s))[pos := last (heap s)],
                           nodefinder := ((nodefinder s)(k := None))(dkey (last (heap s)) \<mapsto> pos)\<rparr>) pos
               = (Inr (), s')
           \<and> index_ok s' \<and> mset (heap s') = mset (heap s) - {#heap s ! pos#}
           \<and> create_entry s' = create_entry s"
proof -
  define h where "h = heap s"
  define f where "f = nodefinder s"
  define lst where "lst = last h"
  define h3 where "h3 = (butlast h)[pos := lst]"
  define f3 where "f3 = (f(k := None))(dkey lst \<mapsto> pos)"
  define s3 where "s3 = s\<lparr>nodefinder := f(k := None), heap := butlast h, heap := h3, nodefinder := f3\<rparr>"
  have s3: "heap s3 = h3" "nodefinder s3 = f3" "create_entry s3 = create_entry s" by (simp_all add: s3_def)
  have pos: "pos < length h" "dkey (h ! pos) = k" using index_ok_lookup[OF ok k] by (auto simp: h_def)
  then have ne: "h \<noteq> []" and p1: "pos < length h - 1" using inner by (auto simp: h_def)
  have hi: "heap_indexed h f" using ok by (simp add: index_ok_def h_def f_def)
  have lst: "lst = h ! (length h - 1)" using ne by (simp add: lst_def last_conv_nth)
  have ll: "length h - 1 < length h" using ne by simp
  have klst: "dkey lst \<noteq> k"
    using heap_indexed_inj[OF hi ll pos(1)] pos p1 lst by auto
  have len3: "length h3 = length h - 1" by (simp add: h3_def)
  have hi3: "heap_indexed h3 f3"
    unfolding heap_indexed_def
  proof (intro allI impI)
    fix q assume "q < length h3"
    then have q: "q < length h - 1" by (simp add: len3)
    show "f3 (dkey (h3 ! q)) = Some q"
    proof (cases "q = pos")
      case True
      then show ?thesis using q by (simp add: h3_def f3_def)
    next
      case False
      then have hq: "h3 ! q = h ! q" using q by (simp add: h3_def nth_butlast)
      have ql: "q < length h" using q by simp
      have "dkey (h ! q) \<noteq> k" using heap_indexed_inj[OF hi ql pos(1)] pos False by auto
      moreover have "dkey (h ! q) \<noteq> dkey lst"
        using heap_indexed_inj[OF hi ql ll] q lst by auto
      moreover have "f (dkey (h ! q)) = Some q" using hi ql unfolding heap_indexed_def by simp
      ultimately show ?thesis by (simp add: hq f3_def)
    qed
  qed
  have m3: "mset h3 = mset h - {#h ! pos#}"
    unfolding h3_def lst_def by (rule mset_butlast_update[OF p1])
  have domf: "dom f = dkey ` set h" using index_ok_dom[OF ok] by (simp add: h_def f_def)
  have "distinct h" using hi by (rule heap_indexed_distinct_entries)
  then have set3: "set h3 = set h - {h ! pos}"
  proof -
    assume d: "distinct h"
    have "mset h3 = mset (remove1 (h ! pos) h)" using m3 by simp
    then have "set h3 = set (remove1 (h ! pos) h)" by (rule mset_eq_setD)
    then show ?thesis using d by simp
  qed
  have "lst \<in> set h3" using p1 unfolding h3_def by (simp add: set_update_memI)
  then have a: "dkey lst \<in> dkey ` set h3" by simp
  have b: "k' \<in> dkey ` set h3" if "k' \<in> dom f" "k' \<noteq> k" for k'
  proof -
    from that domf obtain x where x: "x \<in> set h" "k' = dkey x" by auto
    then have "x \<noteq> h ! pos" using that pos by auto
    then show ?thesis using x set3 by auto
  qed
  have d3: "dom f3 \<subseteq> {} \<union> dkey ` set h3"
  proof
    fix k' assume "k' \<in> dom f3"
    then have "k' = dkey lst \<or> (k' \<in> dom f \<and> k' \<noteq> k)"
      unfolding f3_def by (auto split: if_splits)
    then show "k' \<in> {} \<union> dkey ` set h3" using a b by auto
  qed
  have p3: "pos < length (heap s3)" using p1 by (simp add: s3 len3)
  have f3p: "nodefinder s3 (dkey (heap s3 ! pos)) = Some pos"
    using hi3 p3 unfolding heap_indexed_def by (simp add: s3)
  from reposition_result[OF p3 f3p] obtain s' where
    r: "reposition s3 pos = (Inr (), s')"
      "exchanges (\<lambda>i. True) (heap s3, nodefinder s3) (heap s', nodefinder s')"
      "create_entry s' = create_entry s3"
    by blast
  have "index_ok s'" "mset (heap s') = mset h3"
    using exchanges_index[OF r(2)[unfolded s3] hi3 d3] by (simp_all add: index_ok_def)
  then have "reposition s3 pos = (Inr (), s') \<and> index_ok s'
      \<and> mset (heap s') = mset h - {#h ! pos#} \<and> create_entry s' = create_entry s"
    using r m3 s3 by simp
  then show ?thesis
    unfolding s3_def h3_def f3_def lst_def h_def f_def by blast
qed

lemma delitem_present:
  assumes ok: "index_ok s" and k: "nodefinder s k = Some pos"
  shows "\<exists>s'. delitem s k = (Inr (), s') \<and> index_ok s'
           \<and> mset (heap s') = mset (heap s) - {#heap s ! pos#}
           \<and> create_entry s' = create_entry s"
proof -
  have pos: "pos < length (heap s)" using index_ok_lookup[OF ok k] by simp
  show ?thesis
  proof (cases "pos = length (heap s) - 1")
    case True
    then show ?thesis
      using remove_last_index[OF ok k True] k pos by (simp add: delitem_def Let_def)
  next
    case False
    then show ?thesis
      using remove_inner_index[OF ok k False] k pos by (simp add: delitem_def Let_def)
  qed
qed

lemma delitem_absent: "nodefinder s k = None \<Longrightarrow> delitem s k = (Inl KeyError, s)"
  by (simp add: delitem_def)

lemma pop_present:
  assumes ok: "index_ok s" and k: "nodefinder s k = Some pos"
  shows "\<exists>s'. pop s k d = (Inr (Priority (pkey (heap s ! pos))), s') \<and> index_ok s'
           \<and> mset (heap s') = mset (heap s) - {#heap s ! pos#}
           \<and> create_entry s' = create_entry s"
proof -
  have pos: "pos < length (heap s)" using index_ok_lookup[OF ok k] by simp
  show ?thesis
  proof (cases "pos = length (heap s) - 1")
    case True
    then show ?thesis
      using remove_last_index[OF ok k True] k pos by (simp add: pop_def Let_def)
  next
    case False
    from remove_inner_index[OF ok k False] obtain s' where
      "reposition (s\<lparr>nodefinder := (nodefinder s)(k := None), heap := butlast (heap s),
                           heap := (butlast (heap s))[pos := last (heap s)],
                           nodefinder := ((nodefinder s)(k := None))(dkey (last (heap s)) \<mapsto> pos)\<rparr>) pos
               = (Inr (), s')"
      "index_ok s'" "mset (heap s') = mset (heap s) - {#heap s ! pos#}"
      "create_entry s' = create_entry s"
      by blast
    then show ?thesis
      using False k pos by (simp add: pop_def Let_def)
  qed
qed

lemma pop_absent:
  "nodefinder s k = None \<Longrightarrow>
   pop s k d = (case d of None \<Rightarrow> (Inl KeyError, s) | Some v \<Rightarrow> (Inr (Default v), s))"
  by (simp add: pop_def)

lemma popitem_nonempty:
  assumes ok: "index_ok s" and ne: "heap s \<noteq> []"
  shows "\<exists>s'. popitem s = (Inr (dkey (heap s ! 0), pkey (heap s ! 0)), s') \<and> index_ok s'
           \<and> mset (heap s') = mset (heap s) - {#heap s ! 0#}
           \<and> create_entry s' = create_entry s"
proof -
  define h where "h = heap s"
  define f where "f = nodefinder s"
  define lst where "lst = last h"
  have hi: "heap_indexed h f" using ok by (simp add: index_ok_def h_def f_def)
  have domf: "dom f = dkey ` set h" using index_ok_dom[OF ok] by (simp add: h_def f_def)
  have hne: "h \<noteq> []" using ne by (simp add: h_def)
  have ll: "length h - 1 < length h" using hne by simp
  have lst: "lst = h ! (length h - 1)" using hne by (simp add: lst_def last_conv_nth)
  show ?thesis
  proof (cases "butlast h = []")
    case True
    then have h1: "h = [lst]" using hne by (metis append_butlast_last_id append_Nil lst_def)
    then have f0: "f (dkey lst) = Some 0" using hi unfolding heap_indexed_def by auto
    have hs: "heap s = [lst]" "nodefinder s = f" "last (heap s) = lst"
      using h1 by (simp_all add: h_def[symmetric] f_def lst_def[symmetric])
    have "index_ok (s\<lparr>heap := [], nodefinder := f(dkey lst := None)\<rparr>)"
      using domf h1 by (auto simp: index_ok_def heap_indexed_def)
    moreover have "popitem s = (Inr (dkey lst, pkey lst), s\<lparr>heap := [], nodefinder := f(dkey lst := None)\<rparr>)"
      unfolding popitem_def Let_def using f0 by (simp add: hs)
    ultimately show ?thesis by (simp add: hs)
  next
    case False
    define e0 where "e0 = h ! 0"
    define h2 where "h2 = (butlast h)[0 := lst]"
    define f2 where "f2 = f(dkey lst \<mapsto> 0)"
    define s2 where "s2 = s\<lparr>heap := butlast h, heap := h2, nodefinder := f2\<rparr>"
    have s2: "heap s2 = h2" "nodefinder s2 = f2" "create_entry s2 = create_entry s" by (simp_all add: s2_def)
    have len: "1 < length h" using False hne by (cases h) auto
    have p0: "0 < length h - 1" using len by simp
    have b0: "butlast h ! 0 = e0" using len by (simp add: e0_def nth_butlast)
    have len2: "length h2 = length h - 1" by (simp add: h2_def)
    have zl: "0 < length h" using hne by simp
    have ke0: "dkey e0 \<noteq> dkey lst"
      using heap_indexed_inj[OF hi zl ll] len lst by (auto simp: e0_def)
    have hi2: "heap_indexed h2 f2"
      unfolding heap_indexed_def
    proof (intro allI impI)
      fix q assume "q < length h2"
      then have q: "q < length h - 1" by (simp add: len2)
      then have ql: "q < length h" by simp
      show "f2 (dkey (h2 ! q)) = Some q"
      proof (cases "q = 0")
        case True
        then show ?thesis using q by (simp add: h2_def f2_def)
      next
        case nz: False
        then have hq: "h2 ! q = h ! q" using q by (simp add: h2_def nth_butlast)
        have "dkey (h ! q) \<noteq> dkey lst" using heap_indexed_inj[OF hi ql ll] q lst by auto
        moreover have "f (dkey (h ! q)) = Some q" using hi ql unfolding heap_indexed_def by simp
        ultimately show ?thesis by (simp add: hq f2_def)
      qed
    qed
    have m2: "mset h2 = mset h - {#h ! 0#}"
      unfolding h2_def lst_def by (rule mset_butlast_update[OF p0])
    have d: "distinct h" using hi by (rule heap_indexed_distinct_entries)
    have set2: "set h2 = set h - {e0}"
    proof -
      have "mset h2 = mset (remove1 e0 h)" using m2 by (simp add: e0_def)
      then have "set h2 = set (remove1 e0 h)" by (rule mset_eq_setD)
      then show ?thesis using d by simp
    qed
    have e0notin: "dkey e0 \<notin> dkey ` set h2"
    proof
      assume "dkey e0 \<in> dkey ` set h2"
      then obtain x where "x \<in> set h2" "dkey x = dkey e0" by auto
      then have x: "x \<in> set h" "x \<noteq> e0" "dkey x = dkey e0" using set2 by auto
      then obtain q where "q < length h" "h ! q = x" by (auto simp: in_set_conv_nth)
      then show False using heap_indexed_inj[OF hi _ zl, of q] x by (auto simp: e0_def)
    qed
    have d2: "dom f2 \<subseteq> {dkey e0} \<union> dkey ` set h2"
    proof
      fix k' assume "k' \<in> dom f2"
      then have "k' = dkey lst \<or> k' \<in> dom f" unfolding f2_def by (auto split: if_splits)
      moreover have "lst \<in> set h2" using p0 unfolding h2_def by (simp add: set_update_memI)
      moreover have "k' \<in> {dkey e0} \<union> dkey ` set h2" if "k' \<in> dom f"
      proof -
        from that domf obtain x where "x \<in> set h" "k' = dkey x" by auto
        then show ?thesis using set2 by auto
      qed
      ultimately show "k' \<in> {dkey e0} \<union> dkey ` set h2" by auto
    qed
    have z2: "0 < length (heap s2)" using p0 by (simp add: s2 len2)
    from sink_result[OF z2] obtain s3 where
      sk: "sink s2 0 = (Inr (), s3)"
        "exchanges (in_subtree 0) (heap s2, (nodefinder s2)(dkey (heap s2 ! 0) \<mapsto> 0)) (heap s3, nodefinder s3)"
        "create_entry s3 = create_entry s2"
      by blast
    have "heap s2 ! 0 = lst" using p0 by (simp add: s2 h2_def)
    then have "(nodefinder s2)(dkey (heap s2 ! 0) \<mapsto> 0) = f2" by (simp add: s2 f2_def)
    then have ex: "exchanges (in_subtree 0) (h2, f2) (heap s3, nodefinder s3)"
      using sk(2) by (simp add: s2)
    from exchanges_index[OF ex hi2 d2]
    have r3: "heap_indexed (heap s3) (nodefinder s3)"
      "dom (nodefinder s3) \<subseteq> {dkey e0} \<union> dkey ` set (heap s3)"
      "mset (heap s3) = mset h2" by simp_all
    have set3: "set (heap s3) = set h2" using r3(3) by (rule mset_eq_setD)
    have "f (dkey e0) = Some 0" using hi zl unfolding heap_indexed_def e0_def by simp
    then have "f2 (dkey e0) = Some 0" using ke0 by (simp add: f2_def)
    then have f3e0: "nodefinder s3 (dkey e0) = Some 0"
      using exchanges_other_keys[OF ex, of "dkey e0"] e0notin by simp
    define s4 where "s4 = s3\<lparr>nodefinder := (nodefinder s3)(dkey e0 := None)\<rparr>"
    have "heap_indexed (heap s4) (nodefinder s4)"
      unfolding heap_indexed_def
    proof (intro allI impI)
      fix q assume q: "q < length (heap s4)"
      then have "heap s3 ! q \<in> set (heap s3)" by (simp add: s4_def)
      then have "heap s3 ! q \<in> set h2" by (simp only: set3)
      then have "dkey (heap s3 ! q) \<in> dkey ` set h2" by (rule imageI)
      then have "dkey (heap s3 ! q) \<noteq> dkey e0" using e0notin by auto
      then show "nodefinder s4 (dkey (heap s4 ! q)) = Some q"
        using r3(1) q unfolding heap_indexed_def by (simp add: s4_def)
    qed
    moreover have "dom (nodefinder s4) \<subseteq> dkey ` set (heap s4)"
      using r3(2) by (auto simp: s4_def)
    ultimately have ok4: "index_ok s4" by (simp add: index_ok_def)
    have bl: "butlast (heap s) \<noteq> []" using False by (simp add: h_def)
    have b0': "butlast (heap s) ! 0 = e0" using b0 by (simp add: h_def)
    have s2': "s\<lparr>heap := butlast (heap s), heap := (butlast (heap s))[0 := last (heap s)],
                 nodefinder := (nodefinder s)(dkey (last (heap s)) \<mapsto> 0)\<rparr> = s2"
      by (simp add: s2_def h2_def f2_def lst_def h_def f_def)
    have "popitem s = (Inr (dkey e0, pkey e0), s4)"
      unfolding popitem_def Let_def using ne bl b0' s2' sk(1) f3e0 by (simp add: s4_def)
    then show ?thesis
      using ok4 r3(3) m2 sk(3) s2(3) unfolding s4_def e0_def h_def by simp
  qed
qed

lemma popitem_empty: "heap s = [] \<Longrightarrow> popitem s = (Inl KeyError, s)"
  by (simp add: popitem_def)

section \<open>Heap order under insertion and extraction\<close>

lemma heap_order_subtree: "heap_order h = subtree_order 0 h"
  unfolding heap_order_def subtree_order_def by auto

lemma heap_order_root_top:
  assumes "heap_order h" "same_class c h"
  shows "i < length h \<Longrightarrow> \<not> entry_lt (h ! i) (h ! 0)"
proof (induction i rule: less_induct)
  case (less i)
  show ?case
  proof (cases "i = 0")
    case True
    then show ?thesis using assms(2) less.prems
      by (auto simp: entry_lt_def split: entry_class.splits)
  next
    case False
    define p where "p = (i - 1) div 2"
    have p: "p < i" "p < length h" using False less.prems by (auto simp: p_def)
    have 1: "\<not> entry_lt (h ! i) (h ! p)"
      using assms(1) False less.prems unfolding heap_order_def p_def by simp
    have 2: "\<not> entry_lt (h ! p) (h ! 0)" using less.IH[OF p] .
    have "cls (h ! i) = cls (h ! p)" using assms(2) p less.prems by (simp add: same_class_nth)
    then show ?thesis using not_entry_lt_trans[OF _ 1 2] by simp
  qed
qed

lemma setitem_new_order:
  assumes k: "nodefinder s k = None" and ho: "heap_order (heap s)"
    and cl: "same_class (create_entry s) (heap s)" and r: "setitem s k p = (r, s')"
  shows "heap_order (heap s') \<and> same_class (create_entry s) (heap s')"
proof -
  define e where "e = new_entry (create_entry s) k p"
  define n where "n = length (heap s)"
  define s1 where "s1 = s\<lparr>heap := heap s @ [e], nodefinder := (nodefinder s)(k \<mapsto> n)\<rparr>"
  have sw: "swim s1 n 0 = (r, s')"
    using k r by (simp add: setitem_def s1_def n_def e_def Let_def)
  have n1: "n < length (heap s1)" "in_subtree 0 n" by (simp_all add: s1_def n_def)
  have c1: "same_class (create_entry s) (heap s1)"
    using cl by (auto simp: same_class_def s1_def e_def new_entry_def)
  have A: "\<not> entry_lt (heap s1 ! i) (heap s1 ! ((i - 1) div 2))"
    if "i < length (heap s1)" "i \<noteq> 0" "i \<noteq> n" for i
  proof -
    have "i < n" "(i - 1) div 2 < n" using that by (auto simp: s1_def n_def)
    then show ?thesis using ho that unfolding heap_order_def by (simp add: s1_def n_def nth_append)
  qed
  have leaf: "i \<le> n \<Longrightarrow> 0 < i \<Longrightarrow> (i - 1) div 2 \<noteq> n" for i by linarith
  have h1: "hole_order 0 (heap s1) n"
    unfolding hole_order_def using A leaf by (auto simp: s1_def n_def)
  have cb: "children_below (heap s1 ! n) (heap s1) n"
    by (rule children_below_leaf) (simp add: s1_def n_def)
  have "subtree_order 0 (heap s')" by (rule swim_order[OF sw n1 c1 h1 cb])
  moreover obtain s2 where "swim s1 n 0 = (Inr (), s2)"
    "exchanges (in_subtree 0) (heap s1, (nodefinder s1)(dkey (heap s1 ! n) \<mapsto> n)) (heap s2, nodefinder s2)"
    using swim_result[OF n1] by blast
  then have "set (heap s') = set (heap s1)" using sw exchanges_set by fastforce
  ultimately show ?thesis using c1 by (simp add: heap_order_subtree same_class_def)
qed

lemma popitem_order:
  assumes ho: "heap_order (heap s)" and cl: "same_class c (heap s)" and r: "popitem s = (r, s')"
  shows "heap_order (heap s') \<and> same_class c (heap s')"
proof (cases "heap s = []")
  case True
  then show ?thesis using r ho cl by (simp add: popitem_def)
next
  case ne: False
  show ?thesis
  proof (cases "butlast (heap s) = []")
    case True
    then have "heap s' = []"
      using r ne by (auto simp: popitem_def Let_def split: option.splits)
    then show ?thesis by (simp add: heap_order_def same_class_def)
  next
    case False
    define h2 where "h2 = (butlast (heap s))[0 := last (heap s)]"
    define s2 where "s2 = s\<lparr>heap := h2, nodefinder := (nodefinder s)(dkey (last (heap s)) \<mapsto> 0)\<rparr>"
    obtain r3 s3 where sk: "sink s2 0 = (r3, s3)" by (metis surj_pair)
    have s2': "s\<lparr>heap := butlast (heap s), heap := (butlast (heap s))[0 := last (heap s)],
                 nodefinder := (nodefinder s)(dkey (last (heap s)) \<mapsto> 0)\<rparr> = s2"
      by (simp add: s2_def h2_def)
    have hs': "heap s' = heap s3"
      using r ne False s2' sk unfolding popitem_def Let_def
      by (auto split: sum.splits option.splits)
    have len2: "length h2 = length (heap s) - 1" by (simp add: h2_def)
    have "length (butlast (heap s)) \<noteq> 0" using False by blast
    then have z2: "0 < length (heap s2)" by (simp add: s2_def h2_def)
    have "set h2 \<subseteq> insert (last (heap s)) (set (butlast (heap s)))"
      unfolding h2_def by (rule set_update_subset_insert)
    also have "\<dots> \<subseteq> set (heap s)" using ne by (auto dest: in_set_butlastD)
    finally have c2: "same_class c (heap s2)" using cl by (auto simp: same_class_def s2_def)
    have A: "\<not> entry_lt (h2 ! i) (h2 ! ((i - 1) div 2))"
      if "i < length h2" "i \<noteq> 0" "(i - 1) div 2 \<noteq> 0" for i
    proof -
      have i: "i < length (heap s) - 1" using that len2 by simp
      then have "(i - 1) div 2 < length (heap s) - 1" by linarith
      then have "h2 ! i = heap s ! i" "h2 ! ((i - 1) div 2) = heap s ! ((i - 1) div 2)"
        using that i by (simp_all add: h2_def nth_butlast)
      then show ?thesis using ho i that unfolding heap_order_def by simp
    qed
    have ho2: "hole_order 0 (heap s2) 0"
      unfolding hole_order_def using A by (simp add: s2_def)
    have "subtree_order 0 (heap s3)" by (rule sink_order[OF sk z2 c2 ho2])
    moreover obtain s4 where "sink s2 0 = (Inr (), s4)"
      "exchanges (in_subtree 0) (heap s2, (nodefinder s2)(dkey (heap s2 ! 0) \<mapsto> 0)) (heap s4, nodefinder s4)"
      using sink_result[OF z2] by blast
    then have "set (heap s3) = set (heap s2)" using sk exchanges_set by fastforce
    ultimately show ?thesis using c2 hs' by (simp add: heap_order_subtree same_class_def)
  qed
qed

section \<open>Sorted extraction\<close>

lemma item_new_entry [simp]: "item (new_entry c k p) = (k, p)"
  by (simp add: item_def new_entry_def)

lemma insert_all_inv:
  "queue_inv c s \<Longrightarrow> distinct (map fst kvs) \<Longrightarrow> \<forall>k \<in> fst ` set kvs. nodefinder s k = None \<Longrightarrow>
   \<exists>s'. insert_all s kvs = (Inr (), s') \<and> queue_inv c s'
        \<and> mset (map item (heap s')) = mset (map item (heap s)) + mset kvs"
proof (induction kvs arbitrary: s)
  case Nil
  then show ?case by simp
next
  case (Cons kv kvs)
  obtain k p where kv: "kv = (k, p)" by (cases kv)
  have inv: "index_ok s" "heap_order (heap s)" "same_class (create_entry s) (heap s)" "create_entry s = c"
    using Cons.prems(1) by (simp_all add: queue_inv_def)
  have kn: "nodefinder s k = None" using Cons.prems(3) kv by simp
  from setitem_new[OF inv(1) kn, of p] obtain s1 where
    s1: "setitem s k p = (Inr (), s1)" "index_ok s1"
      "mset (heap s1) = add_mset (new_entry (create_entry s) k p) (mset (heap s))"
      "create_entry s1 = create_entry s"
    by blast
  have o1: "heap_order (heap s1)" "same_class (create_entry s) (heap s1)"
    using setitem_new_order[OF kn inv(2,3) s1(1)] by simp_all
  have q1: "queue_inv c s1" using s1 o1 inv(4) by (simp add: queue_inv_def)
  have "set (heap s1) = insert (new_entry c k p) (set (heap s))"
    using s1(3) inv(4) by (metis mset.simps(2) mset_eq_setD list.simps(15))
  then have "dom (nodefinder s1) = insert k (dom (nodefinder s))"
    using index_ok_dom[OF s1(2)] index_ok_dom[OF inv(1)] by (simp add: new_entry_def)
  moreover have "k \<notin> fst ` set kvs" using Cons.prems(2) kv by simp
  ultimately have n1: "\<forall>k' \<in> fst ` set kvs. nodefinder s1 k' = None"
    using Cons.prems(3) by (metis domIff insert_iff list.set_intros(2) image_iff)
  have d1: "distinct (map fst kvs)" using Cons.prems(2) by simp
  from Cons.IH[OF q1 d1 n1] obtain s' where
    s': "insert_all s1 kvs = (Inr (), s')" "queue_inv c s'"
      "mset (map item (heap s')) = mset (map item (heap s1)) + mset kvs"
    by blast
  have "mset (map item (heap s1)) = add_mset (k, p) (mset (map item (heap s)))"
    using s1(3) by (metis image_mset_add_mset item_new_entry mset_map)
  then show ?case using s' s1(1) kv by simp
qed

lemma pop_n_inv:
  "queue_inv c s \<Longrightarrow> n \<le> length (heap s) \<Longrightarrow>
   \<exists>pops s'. pop_n n s = (Inr pops, s') \<and> queue_inv c s' \<and> length pops = n
        \<and> length (heap s') = length (heap s) - n
        \<and> mset (map item (heap s)) = mset pops + mset (map item (heap s'))
        \<and> rank_sorted c (map snd pops)"
proof (induction n arbitrary: s)
  case 0
  then show ?case by (simp add: rank_sorted_def split: entry_class.splits)
next
  case (Suc n)
  have inv: "index_ok s" "heap_order (heap s)" "same_class c (heap s)" "create_entry s = c"
    using Suc.prems(1) by (simp_all add: queue_inv_def)
  have ne: "heap s \<noteq> []" using Suc.prems(2) by auto
  define e0 where "e0 = heap s ! 0"
  from popitem_nonempty[OF inv(1) ne] obtain s1 where
    s1: "popitem s = (Inr (dkey e0, pkey e0), s1)" "index_ok s1"
      "mset (heap s1) = mset (heap s) - {#e0#}" "create_entry s1 = create_entry s"
    unfolding e0_def by blast
  have o1: "heap_order (heap s1)" "same_class c (heap s1)"
    using popitem_order[OF inv(2,3) s1(1)] by simp_all
  have q1: "queue_inv c s1" using s1 o1 inv(4) by (simp add: queue_inv_def)
  have e0in: "e0 \<in># mset (heap s)" using ne by (simp add: e0_def)
  then have ms: "mset (heap s) = add_mset e0 (mset (heap s1))" using s1(3) by simp
  then have l1: "length (heap s1) = length (heap s) - 1"
    by (metis size_mset size_add_mset diff_Suc_1)
  then have n1: "n \<le> length (heap s1)" using Suc.prems(2) by simp
  from Suc.IH[OF q1 n1] obtain pops s' where
    r: "pop_n n s1 = (Inr pops, s')" "queue_inv c s'" "length pops = n"
      "length (heap s') = length (heap s1) - n"
      "mset (map item (heap s1)) = mset pops + mset (map item (heap s'))"
      "rank_sorted c (map snd pops)"
    by blast
  have mi: "mset (map item (heap s)) = add_mset (item e0) (mset (map item (heap s1)))"
    using ms by (metis image_mset_add_mset mset_map)
  have top: "\<not> entry_lt e (e0)" if "e \<in> set (heap s)" for e
    using heap_order_root_top[OF inv(2,3)] that unfolding e0_def by (auto simp: in_set_conv_nth)
  have below: "\<not> entry_lt e e0 \<and> cls e = c" if "kp \<in> set pops" "kp = item e" "e \<in> set (heap s1)" for kp e
  proof -
    have "e \<in> set (heap s)" using that ms by (metis insert_iff mset_eq_setD list.simps(15) mset.simps(2))
    then show ?thesis using top inv(3) by (simp add: same_class_def)
  qed
  have popsin: "\<exists>e \<in> set (heap s1). kp = item e" if "kp \<in> set pops" for kp
  proof -
    have "kp \<in># mset (map item (heap s1))" using that r(5) by simp
    then show ?thesis by auto
  qed
  have srt: "rank_sorted c (pkey e0 # map snd pops)"
  proof (cases c)
    case MinPQDEntry
    have "pkey e0 \<le> snd kp" if kp: "kp \<in> set pops" for kp
    proof -
      obtain e where e: "e \<in> set (heap s1)" "kp = item e" using popsin[OF kp] by blast
      then have "\<not> entry_lt e e0" "cls e = c" using below[OF kp] by simp_all
      then show ?thesis using e MinPQDEntry by (simp add: entry_lt_def item_def)
    qed
    then show ?thesis using r(6) MinPQDEntry by (auto simp: rank_sorted_def)
  next
    case MaxPQDEntry
    have "snd kp \<le> pkey e0" if kp: "kp \<in> set pops" for kp
    proof -
      obtain e where e: "e \<in> set (heap s1)" "kp = item e" using popsin[OF kp] by blast
      then have "\<not> entry_lt e e0" "cls e = c" using below[OF kp] by simp_all
      then show ?thesis using e MaxPQDEntry by (simp add: entry_lt_def item_def)
    qed
    then show ?thesis using r(6) MaxPQDEntry by (auto simp: rank_sorted_def sorted_append)
  qed
  have "pop_n (Suc n) s = (Inr ((dkey e0, pkey e0) # pops), s')"
    using s1(1) r(1) by simp
  moreover have "length (heap s') = length (heap s) - Suc n" using r(4) l1 by simp
  moreover have "mset (map item (heap s)) = mset ((dkey e0, pkey e0) # pops) + mset (map item (heap s'))"
    using mi r(5) by (simp add: item_def)
  ultimately show ?case using r(2,3) srt by auto
qed

lemma init_empty:
  "init c [] [] = (Inr (), \<lparr>heap = [], nodefinder = Map.empty, create_entry = c\<rparr>)"
  by (simp add: init_def heapify_def)

lemma queue_inv_empty: "queue_inv c \<lparr>heap = [], nodefinder = Map.empty, create_entry = c\<rparr>"
  by (simp add: queue_inv_def index_ok_def heap_indexed_def heap_order_def same_class_def)

lemma insert_then_pop_all:
  assumes "distinct (map fst kvs)"
  shows "\<exists>s pops s'. insert_all (snd (init c [] [])) kvs = (Inr (), s)
           \<and> pop_n (length kvs) s = (Inr pops, s')
           \<and> rank_sorted c (map snd pops) \<and> mset pops = mset kvs \<and> heap s' = []"
proof -
  let ?e = "\<lparr>heap = [], nodefinder = Map.empty, create_entry = c\<rparr> :: ('a, 'b) PQDict"
  from insert_all_inv[OF queue_inv_empty assms, of c] obtain s where
    s: "insert_all ?e kvs = (Inr (), s)" "queue_inv c s"
      "mset (map item (heap s)) = mset (map item (heap ?e)) + mset kvs"
    by auto
  then have "size (mset (map item (heap s))) = size (mset kvs)" by simp
  then have len: "length kvs = length (heap s)" by simp
  then have "length kvs \<le> length (heap s)" by simp
  from pop_n_inv[OF s(2) this] obtain pops s' where
    r: "pop_n (length kvs) s = (Inr pops, s')" "length (heap s') = length (heap s) - length kvs"
      "mset (map item (heap s)) = mset pops + mset (map item (heap s'))"
      "rank_sorted c (map snd pops)"
    by blast
  have "heap s' = []" using r(2) len by simp
  then have "mset pops = mset kvs" using r(3) s(3) by simp
  then show ?thesis using s(1) r(1,4) \<open>heap s' = []\<close> by (simp add: init_empty)
qed

text \<open>
  C4 (sorted extraction). Inserting \<open>n\<close> pairs with pairwise distinct keys into a fresh
  min-queue and then calling \<open>popitem\<close> \<open>n\<close> times succeeds every time and yields the
  priorities in non-decreasing order; for a fresh max-queue, in non-increasing order. The
  popped pairs are exactly the inserted ones.
\<close>

theorem sorted_extraction:
  "distinct (map fst kvs) \<Longrightarrow>
   (\<exists>s pops s'. insert_all (snd (minpq [] [])) kvs = (Inr (), s)
       \<and> pop_n (length kvs) s = (Inr pops, s')
       \<and> sorted (map snd pops) \<and> mset pops = mset kvs)
   \<and> (\<exists>s pops s'. insert_all (snd (maxpq [] [])) kvs = (Inr (), s)
       \<and> pop_n (length kvs) s = (Inr pops, s')
       \<and> sorted (rev (map snd pops)) \<and> mset pops = mset kvs)"
  using insert_then_pop_all[of kvs MinPQDEntry] insert_then_pop_all[of kvs MaxPQDEntry]
  unfolding minpq_def maxpq_def rank_sorted_def by simp blast

theorem sorted_extraction_witness:
  "distinct (map fst [(''a'', 3::int), (''b'', 1), (''c'', 2)])
   \<and> ((\<exists>s pops s'. insert_all (snd (minpq [] [])) [(''a'', 3::int), (''b'', 1), (''c'', 2)] = (Inr (), s)
         \<and> pop_n (length [(''a'', 3::int), (''b'', 1), (''c'', 2)]) s = (Inr pops, s')
         \<and> sorted (map snd pops) \<and> mset pops = mset [(''a'', 3::int), (''b'', 1), (''c'', 2)])
      \<and> (\<exists>s pops s'. insert_all (snd (maxpq [] [])) [(''a'', 3::int), (''b'', 1), (''c'', 2)] = (Inr (), s)
         \<and> pop_n (length [(''a'', 3::int), (''b'', 1), (''c'', 2)]) s = (Inr pops, s')
         \<and> sorted (rev (map snd pops)) \<and> mset pops = mset [(''a'', 3::int), (''b'', 1), (''c'', 2)]))"
proof -
  have d: "distinct (map fst [(''a'', 3::int), (''b'', 1), (''c'', 2)])" by simp
  from d sorted_extraction[OF d] show ?thesis by (rule conjI)
qed

section \<open>The update branch and the root\<close>

lemmas pqdict_eval =
  init_def minpq_def maxpq_def heapify_def sink_def swim_def new_entry_def entry_lt_def
  Let_def len_def peek_def updateitem_def setitem_def reposition_def getitem_def
  swim_loop.simps sink_loop.simps

text \<open>
  C1. A max-queue holding x:5 and y:9 (inserted one by one, or given to the constructor),
  then \<open>updateitem(x, 20)\<close>: the entry of x is at position 1, its parent position is 0,
  and the test \<open>parent_pos > 0\<close> skips the comparison with the root. \<open>peek()\<close> still
  returns (y, 9), not (x, 20).
\<close>

theorem scenario_B_peek_returns_old_top:
  "fst (peek (snd (updateitem
          (snd (setitem (snd (setitem (snd (maxpq [] [])) ''x'' (5::int))) ''y'' 9)) ''x'' 20)))
     = Inr (''y'', 9)
   \<and> fst (peek (snd (updateitem (snd (maxpq [[(''x'', 5::int), (''y'', 9)]] [])) ''x'' 20)))
     = Inr (''y'', 9)"
  by (simp add: pqdict_eval)

text \<open>
  C2. A min-queue with a:1 and b:2 inserted, then \<open>updateitem(b, 0)\<close>: the call succeeds
  and leaves b:0 at position 1 below a:1 at position 0. The entry at position 1 ranks higher
  than its parent, which is what heap order (I3) excludes, and the top entry is not the
  top-ranked one (I4).
\<close>

theorem update_breaks_heap_order:
  "fst (updateitem (snd (setitem (snd (setitem (snd (minpq [] [])) ''a'' (1::int))) ''b'' 2)) ''b'' 0)
     = Inr ()
   \<and> map item (heap (snd (updateitem
         (snd (setitem (snd (setitem (snd (minpq [] [])) ''a'' (1::int))) ''b'' 2)) ''b'' 0)))
     = [(''a'', 1), (''b'', 0)]
   \<and> entry_lt
        (heap (snd (updateitem
           (snd (setitem (snd (setitem (snd (minpq [] [])) ''a'' (1::int))) ''b'' 2)) ''b'' 0)) ! 1)
        (heap (snd (updateitem
           (snd (setitem (snd (setitem (snd (minpq [] [])) ''a'' (1::int))) ''b'' 2)) ''b'' 0)) ! ((1 - 1) div 2))"
  by (simp add: pqdict_eval item_def)

section \<open>Construction from pairs with a repeated key\<close>

text \<open>
  C3. The constructor on the pairs (k, 1), (k, 2): both entries stay in the heap list, the
  dictionary has the one key k, and the priority read back for k is 1, the first value.
\<close>

theorem init_duplicate_key_keeps_both_entries:
  "fst (minpq [[(''k'', 1::int), (''k'', 2)]] []) = Inr ()
   \<and> len (snd (minpq [[(''k'', 1::int), (''k'', 2)]] [])) = 1
   \<and> getitem (snd (minpq [[(''k'', 1::int), (''k'', 2)]] [])) ''k'' = Inr 1
   \<and> length (heap (snd (minpq [[(''k'', 1::int), (''k'', 2)]] []))) = 2"
  by (simp add: pqdict_eval)

end
